theory Spec2Isabelle
  imports Main "HOL-Library.Word" "HOL-Library.Multiset" "HOL-Library.Sublist"
begin

section \<open>The query request handler of elephant\<close>

text \<open>
  A shallow embedding of \<^verbatim>\<open>internal/comm/handlers/queryrequesthandler.go\<close>:
  the comparator \<^verbatim>\<open>sortEntries\<close> and the method \<^verbatim>\<open>(*QueryRequest).Handle\<close>.
  Package variables are fields of the record \<open>globals\<close>, the connection is a record
  holding the buffers written so far, and everything the handler calls outside its own
  file (the two codecs, \<^verbatim>\<open>strings.ToLower\<close>, \<^verbatim>\<open>slices.SortFunc\<close>, the provider
  registry, the cancellation signal raised by other goroutines) is a field of the record
  \<open>env\<close>, so that every theorem holds for each of their possible behaviours.
\<close>

subsection \<open>Wire data\<close>

type_synonym byte = "8 word"
type_synonym bytes = "byte list"
type_synonym int32 = "32 word"
type_synonym uint32 = "32 word"

text \<open>
  \<^verbatim>\<open>pb.QueryResponse_Item\<close>, \<^verbatim>\<open>pb.QueryResponse\<close> and \<^verbatim>\<open>pb.QueryRequest\<close>.
  The generated package \<^verbatim>\<open>pkg/pb/pb\<close> declares them; the fields are the ones the
  handler, the client and the providers read and write. \<open>Score\<close>, \<open>Qid\<close> and
  \<open>Maxresults\<close> are Go \<^verbatim>\<open>int32\<close>: 32-bit words read with \<open>sint\<close>.
\<close>

record QueryResponse_Item =
  Identifier :: string
  Text :: string
  Subtext :: string
  Icon :: string
  Provider :: string
  Score :: int32
  Actions :: "string list"
  State :: "string list"

record QueryResponse =
  Qid :: int32
  RQuery :: string
  RItem :: QueryResponse_Item

record QueryRequest =
  Providers :: "string list"
  Query :: string
  Maxresults :: int32
  Exactsearch :: bool

text \<open>The zero value \<^verbatim>\<open>&pb.QueryRequest{}\<close> the handler decodes into.\<close>

definition empty_request :: QueryRequest where
  "empty_request = \<lparr>Providers = [], Query = [], Maxresults = 0, Exactsearch = False\<rparr>"

definition QueryDone :: byte where "QueryDone = 255"
definition QueryNoResults :: byte where "QueryNoResults = 254"
definition StatusDone :: byte where "StatusDone = 253"
definition QueryItem :: byte where "QueryItem = 0"
definition QueryAsyncItem :: byte where "QueryAsyncItem = 1"

subsection \<open>The strings package\<close>

text \<open>
  Go strings are byte sequences; \<open>string\<close> is a list of 8-bit characters.
  \<^verbatim>\<open>strings.HasPrefix\<close>, \<^verbatim>\<open>strings.Split\<close> with a one-byte separator and
  \<^verbatim>\<open>strings.Compare\<close> (bytewise lexicographic, result \<open>-1\<close>, \<open>0\<close> or \<open>1\<close>).
\<close>

definition HasPrefix :: "string \<Rightarrow> string \<Rightarrow> bool" where
  "HasPrefix s p \<longleftrightarrow> take (length p) s = p"

fun Split :: "string \<Rightarrow> char \<Rightarrow> string list" where
  "Split [] sep = [[]]"
| "Split (c # cs) sep =
     (if c = sep then [] # Split cs sep
      else (case Split cs sep of
              [] \<Rightarrow> [[c]]
            | p # ps \<Rightarrow> (c # p) # ps))"

fun Compare :: "string \<Rightarrow> string \<Rightarrow> int" where
  "Compare [] [] = 0"
| "Compare [] (y # ys) = - 1"
| "Compare (x # xs) [] = 1"
| "Compare (x # xs) (y # ys) =
     (if (of_char x :: nat) < of_char y then - 1
      else if (of_char y :: nat) < of_char x then 1
      else Compare xs ys)"

subsection \<open>The connection\<close>

text \<open>
  A \<^verbatim>\<open>net.Conn\<close>: the buffers written so far, whether it has been closed, and
  which writes the peer accepts (\<open>accepts c n\<close>: the write attempted after \<open>n\<close>
  successful ones succeeds). \<open>Write\<close> returns \<open>None\<close> for a write error.
\<close>

record conn =
  written :: "bytes list"
  closed :: bool
  accepts :: "nat \<Rightarrow> bool"

definition Write :: "conn \<Rightarrow> bytes \<Rightarrow> conn option" where
  "Write c b =
     (if \<not> closed c \<and> accepts c (length (written c))
      then Some (c\<lparr>written := written c @ [b]\<rparr>) else None)"

text \<open>\<^verbatim>\<open>binary.BigEndian.PutUint32\<close> on a fresh four-byte buffer.\<close>

definition PutUint32 :: "uint32 \<Rightarrow> bytes" where
  "PutUint32 n = [ucast (drop_bit 24 n), ucast (drop_bit 16 n), ucast (drop_bit 8 n), ucast n]"

text \<open>
  The buffer of one data frame: the opcode, \<^verbatim>\<open>uint32(len(b))\<close> big-endian, the
  payload.
\<close>

definition frame :: "byte \<Rightarrow> bytes \<Rightarrow> bytes" where
  "frame opcode b = opcode # PutUint32 (word_of_nat (length b)) @ b"

text \<open>
  Modelled from the spec: \<^verbatim>\<open>writeStatus\<close>, which the handler calls and another file
  of the package defines. A status frame is the opcode with a zero length field and no
  payload; a write error leaves the connection as it was.
\<close>

definition writeStatus :: "byte \<Rightarrow> conn \<Rightarrow> conn" where
  "writeStatus opcode c = (case Write c (frame opcode []) of None \<Rightarrow> c | Some c' \<Rightarrow> c')"

subsection \<open>Package variables and the environment\<close>

text \<open>
  A \<^verbatim>\<open>context.CancelFunc\<close> is the number of the context it cancels; \<open>None\<close> is
  the nil function. \<open>cancelled_ctxs\<close> is the set of cancelled contexts and \<open>next_ctx\<close> the
  context \<^verbatim>\<open>context.WithCancel\<close> creates next. \<open>WebsearchPrefixes\<close> lists the
  map's entries in the order the \<^verbatim>\<open>range\<close> statement visits them, which Go leaves
  open.
\<close>

type_synonym CancelFunc = "nat option"

record globals =
  queries :: "uint32 \<rightharpoonup> CancelFunc"
  qid :: uint32
  MaxGlobalItemsToDisplayWebsearch :: int
  WebsearchAlwaysShow :: bool
  WebsearchPrefixes :: "(string \<times> string) list"
  cancelled_ctxs :: "nat set"
  next_ctx :: nat

text \<open>
  A provider's \<^verbatim>\<open>Query(conn, text, single, exact, format)\<close>, as a function of the
  arguments it computes its items from.
\<close>

type_synonym provider = "string \<Rightarrow> bool \<Rightarrow> bool \<Rightarrow> byte \<Rightarrow> QueryResponse_Item list"

text \<open>
  What the handler calls and does not define. \<open>isCncld k\<close> is what the \<open>k\<close>-th
  poll of \<^verbatim>\<open>isCncld\<close> finds: the signal is raised by a later query of the same
  connection, running in another goroutine. The goroutines of the fan-out append their
  results under a mutex in the order they finish; the model appends them in the order
  of the request, and \<open>slices_SortFunc\<close> stands for any sorting function, so every
  order of arrival followed by a sort is covered.
\<close>

record env =
  proto_Unmarshal :: "bytes \<Rightarrow> QueryRequest option"
  json_Unmarshal :: "bytes \<Rightarrow> QueryRequest option"
  proto_Marshal :: "QueryResponse \<Rightarrow> bytes option"
  json_Marshal :: "QueryResponse \<Rightarrow> bytes option"
  strings_ToLower :: "string \<Rightarrow> string"
  slices_SortFunc :: "(QueryResponse_Item \<Rightarrow> QueryResponse_Item \<Rightarrow> int) \<Rightarrow>
    QueryResponse_Item list \<Rightarrow> QueryResponse_Item list"
  providers_Providers :: "string \<rightharpoonup> provider"
  isCncld :: "nat \<Rightarrow> bool"

subsection \<open>sortEntries\<close>

definition sortEntries :: "env \<Rightarrow> QueryResponse_Item \<Rightarrow> QueryResponse_Item \<Rightarrow> int" where
  "sortEntries E a b =
     (if sint (Score a) > sint (Score b) then - 1
      else if sint (Score b) > sint (Score a) then 1
      else Compare (strings_ToLower E (Text a)) (strings_ToLower E (Text b)))"

subsection \<open>Handle\<close>

datatype exit = DecodeFailed | Cancelled | NoResults | WriteFailed | Finished | Panicked

text \<open>The \<^verbatim>\<open>switch format\<close> around the two decoders; no case for other formats.\<close>

definition decode :: "env \<Rightarrow> byte \<Rightarrow> bytes \<Rightarrow> QueryRequest option" where
  "decode E format data =
     (if format = 0 then proto_Unmarshal E data
      else if format = 1 then json_Unmarshal E data
      else Some empty_request)"

text \<open>The \<^verbatim>\<open>switch format\<close> around the two encoders: \<open>b\<close> stays nil otherwise.\<close>

definition marshal :: "env \<Rightarrow> byte \<Rightarrow> QueryResponse \<Rightarrow> bytes option" where
  "marshal E format r =
     (if format = 0 then proto_Marshal E r
      else if format = 1 then json_Marshal E r
      else Some [])"

text \<open>
  The prefix hint: the loop over \<open>WebsearchPrefixes\<close> keeps the value of the last
  matching key it visits.
\<close>

definition wsprefix_of :: "globals \<Rightarrow> QueryRequest \<Rightarrow> string" where
  "wsprefix_of g req =
     (if ''websearch'' \<in> set (Providers req)
      then foldl (\<lambda>w (k, v). if HasPrefix (Query req) k then v else w) [] (WebsearchPrefixes g)
      else [])"

text \<open>
  The cancel-and-install swap under \<open>queryMutex\<close>: a non-nil handle found under
  \<open>cid\<close> is called, then the new one is stored.
\<close>

definition install :: "uint32 \<Rightarrow> nat \<Rightarrow> globals \<Rightarrow> globals" where
  "install cid ctx g =
     (let g' = g\<lparr>next_ctx := Suc ctx\<rparr> in
      case queries g' cid of
        Some val \<Rightarrow>
          (case val of
             Some old \<Rightarrow> g'\<lparr>cancelled_ctxs := insert old (cancelled_ctxs g'), queries := (queries g')(cid \<mapsto> Some ctx)\<rparr>
           | None \<Rightarrow> g'\<lparr>queries := (queries g')(cid \<mapsto> Some ctx)\<rparr>)
      | None \<Rightarrow> g'\<lparr>queries := (queries g')(cid \<mapsto> Some ctx)\<rparr>)"

text \<open>The deferred \<^verbatim>\<open>cancel()\<close>.\<close>

definition cancel :: "nat \<Rightarrow> globals \<Rightarrow> globals" where
  "cancel ctx g = g\<lparr>cancelled_ctxs := insert ctx (cancelled_ctxs g)\<rparr>"

text \<open>
  The routing of one provider name: the name looked up and the query handed over.
  \<open>None\<close> is the index panic of \<^verbatim>\<open>split[1]\<close> on a slice with one element.
\<close>

definition route :: "string \<Rightarrow> string \<Rightarrow> (string \<times> string) option" where
  "route query v =
     (if HasPrefix v ''menus:''
      then (case Split v CHR '':'' of
              s0 # s1 # _ \<Rightarrow> Some (s0, s1 @ '':'' @ query)
            | _ \<Rightarrow> None)
      else Some (v, query))"

text \<open>One goroutine of the fan-out: unknown names contribute nothing.\<close>

definition run_provider :: "env \<Rightarrow> byte \<Rightarrow> QueryRequest \<Rightarrow> string \<Rightarrow> string \<Rightarrow> QueryResponse_Item list" where
  "run_provider E format req name text =
     (case providers_Providers E name of
        None \<Rightarrow> []
      | Some p \<Rightarrow> p text (length (Providers req) = 1) (Exactsearch req) format)"

fun fanout :: "env \<Rightarrow> byte \<Rightarrow> QueryRequest \<Rightarrow> string list \<Rightarrow> QueryResponse_Item list option" where
  "fanout E format req [] = Some []"
| "fanout E format req (v # vs) =
     (case route (Query req) v of
        None \<Rightarrow> None
      | Some (name, text) \<Rightarrow>
          (case fanout E format req vs of
             None \<Rightarrow> None
           | Some rest \<Rightarrow> Some (run_provider E format req name text @ rest)))"

text \<open>
  The slice expression \<^verbatim>\<open>entries[:n]\<close>: a panic unless \<open>0 \<le> n \<le> cap\<close>; the
  capacity is at least the length, and the handler only slices below the length.
\<close>

definition slice_to :: "'a list \<Rightarrow> int \<Rightarrow> 'a list option" where
  "slice_to xs n = (if 0 \<le> n \<and> n \<le> int (length xs) then Some (take (nat n) xs) else None)"

definition cap :: "QueryResponse_Item list \<Rightarrow> int32 \<Rightarrow> QueryResponse_Item list option" where
  "cap entries maxresults =
     (if int (length entries) > sint maxresults then slice_to entries (sint maxresults)
      else Some entries)"

definition hideWebsearch :: "globals \<Rightarrow> QueryRequest \<Rightarrow> QueryResponse_Item list \<Rightarrow> bool" where
  "hideWebsearch g req entries \<longleftrightarrow>
     (length (Providers req) > 1 \<and> int (length entries) > MaxGlobalItemsToDisplayWebsearch g)
     \<and> \<not> WebsearchAlwaysShow g"

text \<open>
  The emission loop. \<open>k\<close> numbers the polls of \<^verbatim>\<open>isCncld\<close>; the result is
  \<open>None\<close> when the loop runs to its end, and the reason of the early return
  otherwise.
\<close>

fun emit :: "env \<Rightarrow> byte \<Rightarrow> uint32 \<Rightarrow> string \<Rightarrow> bool \<Rightarrow> string \<Rightarrow> nat \<Rightarrow>
    QueryResponse_Item list \<Rightarrow> conn \<Rightarrow> exit option \<times> conn" where
  "emit E format qqid query hide wsprefix k [] c = (None, c)"
| "emit E format qqid query hide wsprefix k (v # vs) c =
     (if isCncld E k then (Some Cancelled, c)
      else if Provider v = ''websearch'' \<and> hide \<and> Text v \<noteq> wsprefix
        then emit E format qqid query hide wsprefix (Suc k) vs c
      else (case marshal E format \<lparr>Qid = qqid, RQuery = query, RItem = v\<rparr> of
              None \<Rightarrow> emit E format qqid query hide wsprefix (Suc k) vs c
            | Some b \<Rightarrow>
                (case Write c (frame QueryItem b) of
                   None \<Rightarrow> (Some WriteFailed, c)
                 | Some c' \<Rightarrow> emit E format qqid query hide wsprefix (Suc k) vs c')))"

text \<open>
  The handler from the fan-out on: it reads the package variables and writes to the
  connection.
\<close>

definition dispatch :: "env \<Rightarrow> globals \<Rightarrow> byte \<Rightarrow> uint32 \<Rightarrow> QueryRequest \<Rightarrow> string \<Rightarrow> conn \<Rightarrow>
    exit \<times> conn" where
  "dispatch E g format qqid req wsprefix c =
     (case fanout E format req (Providers req) of
        None \<Rightarrow> (Panicked, c)
      | Some merged \<Rightarrow>
          if isCncld E 0 then (Cancelled, c)
          else
            (let entries = slices_SortFunc E (sortEntries E) merged in
             if length entries = 0
             then (NoResults, writeStatus QueryDone (writeStatus QueryNoResults c))
             else
               (case cap entries (Maxresults req) of
                  None \<Rightarrow> (Panicked, c)
                | Some entries' \<Rightarrow>
                    (case emit E format qqid (Query req) (hideWebsearch g req entries')
                            wsprefix 1 entries' c of
                       (None, c') \<Rightarrow> (Finished, writeStatus QueryDone c')
                     | (Some e, c') \<Rightarrow> (e, c')))))"

text \<open>
  \<^verbatim>\<open>Handle(format, cid, conn, data)\<close>: the new package variables, the connection
  and how the call ended. The deferred cancel runs on every exit after the swap, a panic
  included.
\<close>

definition Handle :: "env \<Rightarrow> byte \<Rightarrow> uint32 \<Rightarrow> bytes \<Rightarrow> globals \<Rightarrow> conn \<Rightarrow>
    exit \<times> globals \<times> conn" where
  "Handle E format cid data g c =
     (let g1 = g\<lparr>qid := qid g + 1\<rparr>;
          qqid = qid g1
      in case decode E format data of
           None \<Rightarrow> (DecodeFailed, g1, c)
         | Some req \<Rightarrow>
             (let wsprefix = wsprefix_of g1 req;
                  ctx = next_ctx g1;
                  g2 = install cid ctx g1;
                  (e, c') = dispatch E g2 format qqid req wsprefix c
              in (e, cancel ctx g2, c')))"

subsection \<open>The ranking and the emitted items, as the specification words them\<close>

text \<open>
  The order of the specification: \<open>a\<close> comes strictly before \<open>b\<close> when its score
  is greater, or the scores are equal and its lowered text is smaller in the bytewise
  lexicographic order; the two are tied when score and lowered text agree.
\<close>

definition byte_lt :: "(char \<times> char) set" where
  "byte_lt = {(a, b). (of_char a :: nat) < of_char b}"

definition before :: "env \<Rightarrow> QueryResponse_Item \<Rightarrow> QueryResponse_Item \<Rightarrow> bool" where
  "before E a b \<longleftrightarrow>
     sint (Score b) < sint (Score a) \<or>
     (Score a = Score b \<and> (strings_ToLower E (Text a), strings_ToLower E (Text b)) \<in> lexord byte_lt)"

definition tied :: "env \<Rightarrow> QueryResponse_Item \<Rightarrow> QueryResponse_Item \<Rightarrow> bool" where
  "tied E a b \<longleftrightarrow> Score a = Score b \<and> strings_ToLower E (Text a) = strings_ToLower E (Text b)"

definition ranked :: "env \<Rightarrow> QueryResponse_Item \<Rightarrow> QueryResponse_Item \<Rightarrow> bool" where
  "ranked E a b \<longleftrightarrow> before E a b \<or> tied E a b"

text \<open>
  What \<^verbatim>\<open>slices.SortFunc\<close> promises for the comparator of the handler: the result is
  a rearrangement of the argument in which no element compares greater than a later one.
\<close>

definition sort_contract :: "env \<Rightarrow> bool" where
  "sort_contract E \<longleftrightarrow>
     (\<forall>xs. mset (slices_SortFunc E (sortEntries E) xs) = mset xs \<and>
           sorted_wrt (\<lambda>a b. sortEntries E a b \<le> 0) (slices_SortFunc E (sortEntries E) xs))"

text \<open>The merged results of the fan-out, and the merged results after the sort.\<close>

definition merged :: "env \<Rightarrow> byte \<Rightarrow> QueryRequest \<Rightarrow> QueryResponse_Item list" where
  "merged E format req = (case fanout E format req (Providers req) of None \<Rightarrow> [] | Some m \<Rightarrow> m)"

definition sorted_entries :: "env \<Rightarrow> byte \<Rightarrow> QueryRequest \<Rightarrow> QueryResponse_Item list" where
  "sorted_entries E format req = slices_SortFunc E (sortEntries E) (merged E format req)"

text \<open>The routing of a provider name with the menu cut at its first colon.\<close>

definition menu_of :: "string \<Rightarrow> string" where
  "menu_of v = takeWhile (\<lambda>c. c \<noteq> CHR '':'') (drop 6 v)"

text \<open>The buffer written for one item, and the two status frames of a query.\<close>

definition item_frame :: "env \<Rightarrow> byte \<Rightarrow> uint32 \<Rightarrow> string \<Rightarrow> QueryResponse_Item \<Rightarrow> bytes" where
  "item_frame E format qqid query v =
     frame QueryItem
       (case marshal E format \<lparr>Qid = qqid, RQuery = query, RItem = v\<rparr> of None \<Rightarrow> [] | Some b \<Rightarrow> b)"

definition done_frame :: bytes where
  "done_frame = frame QueryDone []"

definition noresults_frame :: bytes where
  "noresults_frame = frame QueryNoResults []"

definition suppressed :: "bool \<Rightarrow> string \<Rightarrow> QueryResponse_Item \<Rightarrow> bool" where
  "suppressed hide wsprefix v \<longleftrightarrow> Provider v = ''websearch'' \<and> hide \<and> Text v \<noteq> wsprefix"

text \<open>The items the emission loop writes a frame for, in the order it writes them.\<close>

fun sent :: "env \<Rightarrow> byte \<Rightarrow> uint32 \<Rightarrow> string \<Rightarrow> bool \<Rightarrow> string \<Rightarrow> nat \<Rightarrow>
    QueryResponse_Item list \<Rightarrow> conn \<Rightarrow> QueryResponse_Item list" where
  "sent E format qqid query hide wsprefix k [] c = []"
| "sent E format qqid query hide wsprefix k (v # vs) c =
     (if isCncld E k then []
      else if suppressed hide wsprefix v then sent E format qqid query hide wsprefix (Suc k) vs c
      else (case marshal E format \<lparr>Qid = qqid, RQuery = query, RItem = v\<rparr> of
              None \<Rightarrow> sent E format qqid query hide wsprefix (Suc k) vs c
            | Some b \<Rightarrow>
                (case Write c (frame QueryItem b) of
                   None \<Rightarrow> []
                 | Some c' \<Rightarrow> v # sent E format qqid query hide wsprefix (Suc k) vs c')))"

text \<open>
  The entries the emission loop runs over (none when the slice expression panics), and
  the items a call of the handler writes a frame for.
\<close>

definition capped :: "env \<Rightarrow> byte \<Rightarrow> QueryRequest \<Rightarrow> QueryResponse_Item list" where
  "capped E format req =
     (case cap (sorted_entries E format req) (Maxresults req) of None \<Rightarrow> [] | Some es \<Rightarrow> es)"

definition emitted :: "env \<Rightarrow> globals \<Rightarrow> byte \<Rightarrow> uint32 \<Rightarrow> QueryRequest \<Rightarrow> conn \<Rightarrow>
    QueryResponse_Item list" where
  "emitted E g format qqid req c =
     (if isCncld E 0 then []
      else sent E format qqid (Query req) (hideWebsearch g req (capped E format req))
             (wsprefix_of g req) 1 (capped E format req) c)"

subsection \<open>A concrete environment\<close>

text \<open>
  An environment to run the handler in: ASCII lowering, an insertion sort, three
  providers, and codecs that decode every payload to a given request and encode an
  envelope as two bytes.
\<close>

definition ascii_lower :: "string \<Rightarrow> string" where
  "ascii_lower s =
     map (\<lambda>c. if 65 \<le> (of_char c :: nat) \<and> (of_char c :: nat) \<le> 90
               then char_of ((of_char c :: nat) + 32) else c) s"

fun insert_by :: "('a \<Rightarrow> 'a \<Rightarrow> int) \<Rightarrow> 'a \<Rightarrow> 'a list \<Rightarrow> 'a list" where
  "insert_by cmp x [] = [x]"
| "insert_by cmp x (y # ys) = (if cmp x y \<le> 0 then x # y # ys else y # insert_by cmp x ys)"

definition insertion_sort :: "('a \<Rightarrow> 'a \<Rightarrow> int) \<Rightarrow> 'a list \<Rightarrow> 'a list" where
  "insertion_sort cmp xs = foldr (insert_by cmp) xs []"

definition item :: "string \<Rightarrow> string \<Rightarrow> int32 \<Rightarrow> QueryResponse_Item" where
  "item p t s = \<lparr>Identifier = [], Text = t, Subtext = [], Icon = [], Provider = p, Score = s,
     Actions = [], State = []\<rparr>"

definition test_registry :: "string \<rightharpoonup> provider" where
  "test_registry =
     [''files'' \<mapsto> (\<lambda>text single exact format.
         [item ''files'' ''Beta'' 5, item ''files'' ''alpha'' 5, item ''files'' ''gamma'' 3]),
      ''websearch'' \<mapsto> (\<lambda>text single exact format. [item ''websearch'' ''Google'' 7]),
      ''menus'' \<mapsto> (\<lambda>text single exact format. [item ''menus'' text 1])]"

definition test_env :: "QueryRequest option \<Rightarrow> (nat \<Rightarrow> bool) \<Rightarrow> env" where
  "test_env r polls =
     \<lparr>proto_Unmarshal = (\<lambda>data. r), json_Unmarshal = (\<lambda>data. r),
      proto_Marshal = (\<lambda>e. Some [ucast (Qid e), ucast (Score (RItem e))]),
      json_Marshal = (\<lambda>e. Some [ucast (Qid e), ucast (Score (RItem e))]),
      strings_ToLower = ascii_lower,
      slices_SortFunc = insertion_sort,
      providers_Providers = test_registry,
      isCncld = polls\<rparr>"

definition request :: "string list \<Rightarrow> string \<Rightarrow> int32 \<Rightarrow> QueryRequest" where
  "request ps q m = \<lparr>Providers = ps, Query = q, Maxresults = m, Exactsearch = False\<rparr>"

definition g0 :: globals where
  "g0 = \<lparr>queries = Map.empty, qid = 0, MaxGlobalItemsToDisplayWebsearch = 1,
     WebsearchAlwaysShow = False, WebsearchPrefixes = [(''g '', ''Google'')],
     cancelled_ctxs = {}, next_ctx = 0\<rparr>"

definition c0 :: conn where
  "c0 = \<lparr>written = [], closed = False, accepts = (\<lambda>n. True)\<rparr>"

subsection \<open>Facts about the strings package and the comparator\<close>

lemma of_char_nat_inj: "(of_char x :: nat) = of_char y \<Longrightarrow> x = y"
  by (metis char_of_char)

lemma Compare_range: "Compare x y = - 1 \<or> Compare x y = 0 \<or> Compare x y = 1"
  by (induction x y rule: Compare.induct) auto

lemma Compare_less: "Compare x y = - 1 \<longleftrightarrow> (x, y) \<in> lexord byte_lt"
  by (induction x y rule: Compare.induct) (auto simp: byte_lt_def dest: of_char_nat_inj)

lemma Compare_eq: "Compare x y = 0 \<longleftrightarrow> x = y"
  by (induction x y rule: Compare.induct) (auto dest: of_char_nat_inj)

lemma Compare_flip: "Compare y x = - Compare x y"
  by (induction x y rule: Compare.induct) (auto dest: of_char_nat_inj)

lemma Compare_greater: "Compare x y = 1 \<longleftrightarrow> (y, x) \<in> lexord byte_lt"
  using Compare_flip[of y x] Compare_less[of y x] by auto

lemma trans_byte_lt: "trans byte_lt"
  by (auto simp: trans_def byte_lt_def)

lemma Compare_trans: "Compare x y \<le> 0 \<Longrightarrow> Compare y z \<le> 0 \<Longrightarrow> Compare x z \<le> 0"
proof -
  assume xy: "Compare x y \<le> 0" and yz: "Compare y z \<le> 0"
  have a: "x = y \<or> (x, y) \<in> lexord byte_lt"
    using xy Compare_range[of x y] Compare_less[of x y] Compare_eq[of x y] by auto
  have b: "y = z \<or> (y, z) \<in> lexord byte_lt"
    using yz Compare_range[of y z] Compare_less[of y z] Compare_eq[of y z] by auto
  have "x = z \<or> (x, z) \<in> lexord byte_lt"
    using a b lexord_trans[OF _ _ trans_byte_lt] by blast
  then show ?thesis
    using Compare_less[of x z] Compare_eq[of x z] by auto
qed

lemma sortEntries_range: "sortEntries E a b = - 1 \<or> sortEntries E a b = 0 \<or> sortEntries E a b = 1"
  using Compare_range by (simp add: sortEntries_def)

lemma sortEntries_neg: "sortEntries E a b < 0 \<longleftrightarrow> before E a b"
proof -
  let ?x = "strings_ToLower E (Text a)" and ?y = "strings_ToLower E (Text b)"
  have "Compare ?x ?y < 0 \<longleftrightarrow> (?x, ?y) \<in> lexord byte_lt"
    using Compare_range[of ?x ?y] Compare_less[of ?x ?y] by auto
  then show ?thesis
    by (auto simp: sortEntries_def before_def dest: signed_word_eqI)
qed

lemma sortEntries_zero: "sortEntries E a b = 0 \<longleftrightarrow> tied E a b"
  by (auto simp: sortEntries_def tied_def Compare_eq dest: signed_word_eqI)

lemma sortEntries_flip: "sortEntries E b a = - sortEntries E a b"
  using Compare_flip[of "strings_ToLower E (Text b)" "strings_ToLower E (Text a)"]
  by (auto simp: sortEntries_def)

lemma sortEntries_pos: "sortEntries E a b > 0 \<longleftrightarrow> before E b a"
  using sortEntries_flip[of E b a] sortEntries_neg[of E b a] by auto

lemma sortEntries_le: "sortEntries E a b \<le> 0 \<longleftrightarrow> ranked E a b"
  using sortEntries_neg[of E a b] sortEntries_zero[of E a b] by (auto simp: ranked_def)

lemma sortEntries_total: "sortEntries E a b \<le> 0 \<or> sortEntries E b a \<le> 0"
  using sortEntries_flip[of E a b] by auto

lemma sortEntries_trans:
  assumes "sortEntries E a b \<le> 0" and "sortEntries E b c \<le> 0"
  shows "sortEntries E a c \<le> 0"
proof -
  let ?l = "\<lambda>v. strings_ToLower E (Text v)"
  show ?thesis
  proof (cases "sint (Score a) = sint (Score b) \<and> sint (Score b) = sint (Score c)")
    case True
    then have "Compare (?l a) (?l b) \<le> 0" "Compare (?l b) (?l c) \<le> 0"
      using assms by (auto simp: sortEntries_def)
    then have "Compare (?l a) (?l c) \<le> 0" by (rule Compare_trans)
    with True show ?thesis by (auto simp: sortEntries_def)
  next
    case False
    then show ?thesis
      using assms by (auto simp: sortEntries_def split: if_splits)
  qed
qed

subsection \<open>The insertion sort meets the contract\<close>

lemma mset_insert_by: "mset (insert_by cmp x xs) = add_mset x (mset xs)"
  by (induction xs) auto

lemma mset_insertion_sort: "mset (insertion_sort cmp xs) = mset xs"
  by (induction xs) (auto simp: insertion_sort_def mset_insert_by)

lemma set_insert_by: "set (insert_by cmp x xs) = insert x (set xs)"
  by (induction xs) auto

lemma sorted_insert_by:
  assumes tot: "\<And>a b. cmp a b \<le> 0 \<or> cmp b a \<le> 0"
    and tr: "\<And>a b c. cmp a b \<le> 0 \<Longrightarrow> cmp b c \<le> 0 \<Longrightarrow> cmp a c \<le> 0"
  shows "sorted_wrt (\<lambda>a b. cmp a b \<le> 0) xs \<Longrightarrow> sorted_wrt (\<lambda>a b. cmp a b \<le> 0) (insert_by cmp x xs)"
proof (induction xs)
  case Nil
  then show ?case by simp
next
  case (Cons y ys)
  show ?case
  proof (cases "cmp x y \<le> 0")
    case True
    then have "\<forall>z\<in>set ys. cmp x z \<le> 0"
      using Cons.prems tr by auto
    with True Cons.prems show ?thesis by auto
  next
    case False
    then have "cmp y x \<le> 0" using tot by blast
    with False Cons show ?thesis by (auto simp: set_insert_by)
  qed
qed

lemma sorted_insertion_sort:
  assumes tot: "\<And>a b. cmp a b \<le> 0 \<or> cmp b a \<le> 0"
    and tr: "\<And>a b c. cmp a b \<le> 0 \<Longrightarrow> cmp b c \<le> 0 \<Longrightarrow> cmp a c \<le> 0"
  shows "sorted_wrt (\<lambda>a b. cmp a b \<le> 0) (insertion_sort cmp xs)"
proof (induction xs)
  case Nil
  then show ?case by (simp add: insertion_sort_def)
next
  case (Cons x xs)
  have "insertion_sort cmp (x # xs) = insert_by cmp x (insertion_sort cmp xs)"
    by (simp add: insertion_sort_def)
  with Cons sorted_insert_by[of cmp, OF tot tr] show ?case by simp
qed

lemma sort_contract_test_env: "sort_contract (test_env r polls)"
proof -
  have "slices_SortFunc (test_env r polls) = insertion_sort"
    by (simp add: test_env_def)
  then show ?thesis
    unfolding sort_contract_def
    using sorted_insertion_sort[of "sortEntries (test_env r polls)", OF sortEntries_total sortEntries_trans]
    by (simp add: mset_insertion_sort)
qed

subsection \<open>Routing\<close>

lemma Split_first: "\<exists>ps. Split s sep = takeWhile (\<lambda>c. c \<noteq> sep) s # ps"
  by (induction s) (auto split: list.splits)

lemma HasPrefix_decompose: "HasPrefix v p \<Longrightarrow> v = p @ drop (length p) v"
  by (metis HasPrefix_def append_take_drop_id)

lemma Split_menus:
  assumes "HasPrefix v ''menus:''"
  shows "\<exists>ps. Split v CHR '':'' = ''menus'' # menu_of v # ps"
proof -
  have len: "length ''menus:'' = 6" by simp
  have v: "v = ''menus:'' @ drop 6 v"
    using HasPrefix_decompose[OF assms] unfolding len .
  obtain ps where "Split (drop 6 v) CHR '':'' = menu_of v # ps"
    using Split_first[of "drop 6 v" "CHR '':''"] by (auto simp: menu_of_def)
  then have "Split (''menus:'' @ drop 6 v) CHR '':'' = ''menus'' # menu_of v # ps"
    by simp
  with v show ?thesis by metis
qed

lemma route_eq:
  "route query v =
     Some (if HasPrefix v ''menus:'' then (''menus'', menu_of v @ '':'' @ query) else (v, query))"
proof (cases "HasPrefix v ''menus:''")
  case True
  then obtain ps where "Split v CHR '':'' = ''menus'' # menu_of v # ps"
    using Split_menus by blast
  with True show ?thesis by (simp add: route_def)
next
  case False
  then show ?thesis by (simp add: route_def)
qed

lemma fanout_eq:
  "fanout E format req vs =
     Some (concat (map (\<lambda>v. if HasPrefix v ''menus:''
                               then run_provider E format req ''menus'' (menu_of v @ '':'' @ Query req)
                               else run_provider E format req v (Query req)) vs))"
  by (induction vs) (simp_all add: route_eq)

subsection \<open>The emission loop\<close>

lemma subseq_set: "subseq xs ys \<Longrightarrow> set xs \<subseteq> set ys"
  by (induction rule: list_emb.induct) auto

lemma sorted_wrt_subseq: "subseq xs ys \<Longrightarrow> sorted_wrt R ys \<Longrightarrow> sorted_wrt R xs"
proof (induction rule: list_emb.induct)
  case (list_emb_Nil ys)
  then show ?case by simp
next
  case (list_emb_Cons xs ys y)
  then show ?case by simp
next
  case (list_emb_Cons2 x y xs ys)
  then have "set xs \<subseteq> set ys"
    by (simp add: subseq_set)
  with list_emb_Cons2 show ?case by auto
qed

lemma Write_written: "Write c b = Some c' \<Longrightarrow> written c' = written c @ [b]"
  by (auto simp: Write_def split: if_splits)

lemma Write_closed: "Write c b = Some c' \<Longrightarrow> closed c' = closed c \<and> accepts c' = accepts c"
  by (auto simp: Write_def split: if_splits)

lemma Write_ok: "\<not> closed c \<Longrightarrow> accepts c (length (written c)) \<Longrightarrow> Write c b = Some (c\<lparr>written := written c @ [b]\<rparr>)"
  by (simp add: Write_def)

lemma writeStatus_cases:
  "writeStatus opcode c = c \<or> writeStatus opcode c = c\<lparr>written := written c @ [frame opcode []]\<rparr>"
  by (simp add: writeStatus_def Write_def)



lemma step_cases [case_names cancelled skipped failed wrote]:
  obtains
    "isCncld E k" and
    "emit E format qqid query hide wsprefix k (v # vs) c = (Some Cancelled, c)" and
    "sent E format qqid query hide wsprefix k (v # vs) c = []"
  | "\<not> isCncld E k" and
    "suppressed hide wsprefix v \<or> marshal E format \<lparr>Qid = qqid, RQuery = query, RItem = v\<rparr> = None" and
    "emit E format qqid query hide wsprefix k (v # vs) c = emit E format qqid query hide wsprefix (Suc k) vs c" and
    "sent E format qqid query hide wsprefix k (v # vs) c = sent E format qqid query hide wsprefix (Suc k) vs c"
  | b where "\<not> isCncld E k" and "\<not> suppressed hide wsprefix v" and "marshal E format \<lparr>Qid = qqid, RQuery = query, RItem = v\<rparr> = Some b" and
      "Write c (frame QueryItem b) = None" and
      "emit E format qqid query hide wsprefix k (v # vs) c = (Some WriteFailed, c)" and
      "sent E format qqid query hide wsprefix k (v # vs) c = []"
  | b c' where "\<not> isCncld E k" and "\<not> suppressed hide wsprefix v" and "marshal E format \<lparr>Qid = qqid, RQuery = query, RItem = v\<rparr> = Some b" and
      "Write c (frame QueryItem b) = Some c'" and
      "emit E format qqid query hide wsprefix k (v # vs) c = emit E format qqid query hide wsprefix (Suc k) vs c'" and
      "sent E format qqid query hide wsprefix k (v # vs) c = v # sent E format qqid query hide wsprefix (Suc k) vs c'"
proof (cases "isCncld E k")
  case True
  then show ?thesis by (intro that(1)) simp_all
next
  case nc: False
  show ?thesis
  proof (cases "suppressed hide wsprefix v \<or> marshal E format \<lparr>Qid = qqid, RQuery = query, RItem = v\<rparr> = None")
    case True
    with nc show ?thesis by (intro that(2)) (auto simp: suppressed_def)
  next
    case False
    then obtain b where b: "marshal E format \<lparr>Qid = qqid, RQuery = query, RItem = v\<rparr> = Some b"
      and ns: "\<not> suppressed hide wsprefix v"
      by auto
    show ?thesis
    proof (cases "Write c (frame QueryItem b)")
      case None
      with nc ns b show ?thesis by (intro that(3)[of b]) (auto simp: suppressed_def)
    next
      case (Some c')
      with nc ns b show ?thesis by (intro that(4)[of b c']) (auto simp: suppressed_def)
    qed
  qed
qed

lemma emit_written:
  "written (snd (emit E format qqid query hide wsprefix k vs c)) =
     written c @ map (item_frame E format qqid query) (sent E format qqid query hide wsprefix k vs c)"
proof (induction vs arbitrary: k c)
  case Nil
  then show ?case by simp
next
  case (Cons v vs)
  show ?case
  proof (cases rule: step_cases[where E=E and k=k and hide=hide and wsprefix=wsprefix and v=v and vs=vs and format=format and qqid=qqid and query=query and c=c])
    case cancelled
    then show ?thesis by simp
  next
    case skipped
    show ?thesis unfolding skipped(3,4) by (rule Cons.IH)
  next
    case (failed b)
    then show ?thesis by simp
  next
    case (wrote b c')
    have "written c' = written c @ [item_frame E format qqid query v]"
      using wrote(3,4) by (simp add: Write_written item_frame_def)
    then show ?thesis unfolding wrote(5,6) by (simp add: Cons.IH)
  qed
qed


lemma sent_subseq: "subseq (sent E format qqid query hide wsprefix k vs c) vs"
proof (induction vs arbitrary: k c)
  case Nil
  then show ?case by simp
next
  case (Cons v vs)
  show ?case
  proof (cases rule: step_cases[where E=E and k=k and hide=hide and wsprefix=wsprefix and v=v and vs=vs and format=format and qqid=qqid and query=query and c=c])
    case cancelled
    then show ?thesis by simp
  next
    case skipped
    show ?thesis unfolding skipped(3,4) using Cons.IH[of "Suc k" c] by (rule list_emb_Cons)
  next
    case (failed b)
    then show ?thesis by simp
  next
    case (wrote b c')
    show ?thesis unfolding wrote(5,6) using Cons.IH[of "Suc k" c'] by simp
  qed
qed

lemma sent_not_suppressed:
  "x \<in> set (sent E format qqid query hide wsprefix k vs c) \<Longrightarrow> \<not> suppressed hide wsprefix x"
proof (induction vs arbitrary: k c)
  case Nil
  then show ?case by simp
next
  case (Cons v vs)
  show ?case
  proof (cases rule: step_cases[where E=E and k=k and hide=hide and wsprefix=wsprefix and v=v and vs=vs and format=format and qqid=qqid and query=query and c=c])
    case cancelled
    with Cons.prems show ?thesis by simp
  next
    case skipped
    with Cons.prems have "x \<in> set (sent E format qqid query hide wsprefix (Suc k) vs c)"
      by simp
    then show ?thesis by (rule Cons.IH)
  next
    case (failed b)
    with Cons.prems show ?thesis by simp
  next
    case (wrote b c')
    with Cons.prems have "x = v \<or> x \<in> set (sent E format qqid query hide wsprefix (Suc k) vs c')"
      by simp
    with wrote(2) Cons.IH show ?thesis by blast
  qed
qed

lemma sent_before_cancel:
  "isCncld E (k + n) \<Longrightarrow> subseq (sent E format qqid query hide wsprefix k vs c) (take n vs)"
proof (induction vs arbitrary: k c n)
  case Nil
  then show ?case by simp
next
  case (Cons v vs)
  show ?case
  proof (cases n)
    case 0
    with Cons.prems show ?thesis by simp
  next
    case (Suc m)
    with Cons.prems have "isCncld E (Suc k + m)" by simp
    then have ih: "\<And>c'. subseq (sent E format qqid query hide wsprefix (Suc k) vs c') (take m vs)"
      by (rule Cons.IH)
    show ?thesis
    proof (cases rule: step_cases[where E=E and k=k and hide=hide and wsprefix=wsprefix and v=v and vs=vs and format=format and qqid=qqid and query=query and c=c])
      case cancelled
      then show ?thesis by simp
    next
      case skipped
      show ?thesis unfolding skipped(3,4) Suc using ih[of c] by (simp add: list_emb_Cons)
    next
      case (failed b)
      then show ?thesis by simp
    next
      case (wrote b c')
      show ?thesis unfolding wrote(5,6) Suc using ih[of c'] by simp
    qed
  qed
qed

lemma emit_cancel_exit:
  "isCncld E (k + n) \<Longrightarrow> n < length vs \<Longrightarrow>
   fst (emit E format qqid query hide wsprefix k vs c) = Some Cancelled \<or>
   fst (emit E format qqid query hide wsprefix k vs c) = Some WriteFailed"
proof (induction vs arbitrary: k c n)
  case Nil
  then show ?case by simp
next
  case (Cons v vs)
  show ?case
  proof (cases rule: step_cases[where E=E and k=k and hide=hide and wsprefix=wsprefix and v=v and vs=vs and format=format and qqid=qqid and query=query and c=c])
    case cancelled
    then show ?thesis by simp
  next
    case (failed b)
    then show ?thesis by simp
  next
    case skipped
    then obtain m where m: "n = Suc m" using Cons.prems(1) by (cases n) auto
    with Cons.prems have "isCncld E (Suc k + m)" "m < length vs" by simp_all
    then show ?thesis unfolding skipped(3,4) by (rule Cons.IH)
  next
    case (wrote b c')
    then obtain m where m: "n = Suc m" using Cons.prems(1) by (cases n) auto
    with Cons.prems have "isCncld E (Suc k + m)" "m < length vs" by simp_all
    then show ?thesis unfolding wrote(5,6) by (rule Cons.IH)
  qed
qed

lemma emit_exit:
  "fst (emit E format qqid query hide wsprefix k vs c) = None \<or>
   fst (emit E format qqid query hide wsprefix k vs c) = Some Cancelled \<or>
   fst (emit E format qqid query hide wsprefix k vs c) = Some WriteFailed"
proof (induction vs arbitrary: k c)
  case Nil
  then show ?case by simp
next
  case (Cons v vs)
  show ?case
  proof (cases rule: step_cases[where E=E and k=k and hide=hide and wsprefix=wsprefix and v=v and vs=vs and format=format and qqid=qqid and query=query and c=c])
    case cancelled
    then show ?thesis by simp
  next
    case skipped
    show ?thesis unfolding skipped(3,4) by (rule Cons.IH)
  next
    case (failed b)
    then show ?thesis by simp
  next
    case (wrote b c')
    show ?thesis unfolding wrote(5,6) by (rule Cons.IH)
  qed
qed

lemma emit_complete:
  assumes "\<forall>j. \<not> isCncld E j" and "\<not> closed c" and "\<forall>n. accepts c n"
  shows "fst (emit E format qqid query hide wsprefix k vs c) = None \<and>
     sent E format qqid query hide wsprefix k vs c =
       filter (\<lambda>v. \<not> suppressed hide wsprefix v \<and> marshal E format \<lparr>Qid = qqid, RQuery = query, RItem = v\<rparr> \<noteq> None) vs"
  using assms(2,3)
proof (induction vs arbitrary: k c)
  case Nil
  then show ?case by simp
next
  case (Cons v vs)
  show ?case
  proof (cases rule: step_cases[where E=E and k=k and hide=hide and wsprefix=wsprefix and v=v and vs=vs and format=format and qqid=qqid and query=query and c=c])
    case cancelled
    with assms(1) show ?thesis by blast
  next
    case skipped
    have "\<not> (\<not> suppressed hide wsprefix v \<and> marshal E format \<lparr>Qid = qqid, RQuery = query, RItem = v\<rparr> \<noteq> None)"
      using skipped(2) by simp
    then show ?thesis unfolding skipped(3,4) using Cons.IH[OF Cons.prems, of "Suc k"]
      by simp
  next
    case (failed b)
    show ?thesis using failed(4) Cons.prems by (simp add: Write_def)
  next
    case (wrote b c')
    have c': "\<not> closed c'" "\<forall>n. accepts c' n"
      using Cons.prems Write_closed[OF wrote(4)] by simp_all
    have "\<not> suppressed hide wsprefix v \<and> marshal E format \<lparr>Qid = qqid, RQuery = query, RItem = v\<rparr> \<noteq> None"
      using wrote(2,3) by simp
    then show ?thesis unfolding wrote(5,6) using Cons.IH[OF c', of "Suc k"]
      by simp
  qed
qed

subsection \<open>The handler as a whole\<close>

lemma fanout_merged: "fanout E format req (Providers req) = Some (merged E format req)"
  by (simp add: merged_def fanout_eq)

lemma dispatch_unfold:
  "dispatch E g format qqid req wsp c =
     (if isCncld E 0 then (Cancelled, c)
      else if sorted_entries E format req = []
        then (NoResults, writeStatus QueryDone (writeStatus QueryNoResults c))
      else (case cap (sorted_entries E format req) (Maxresults req) of
              None \<Rightarrow> (Panicked, c)
            | Some es \<Rightarrow>
                (case emit E format qqid (Query req) (hideWebsearch g req es) wsp 1 es c of
                   (None, c') \<Rightarrow> (Finished, writeStatus QueryDone c')
                 | (Some e, c') \<Rightarrow> (e, c'))))"
  by (simp add: dispatch_def fanout_merged sorted_entries_def Let_def)

lemma install_fields:
  "MaxGlobalItemsToDisplayWebsearch (install cid ctx g) = MaxGlobalItemsToDisplayWebsearch g"
  "WebsearchAlwaysShow (install cid ctx g) = WebsearchAlwaysShow g"
  "WebsearchPrefixes (install cid ctx g) = WebsearchPrefixes g"
  "qid (install cid ctx g) = qid g"
  "next_ctx (install cid ctx g) = Suc ctx"
  "queries (install cid ctx g) = (queries g)(cid \<mapsto> Some ctx)"
  "cancelled_ctxs (install cid ctx g) =
     (case queries g cid of Some (Some old) \<Rightarrow> insert old (cancelled_ctxs g) | _ \<Rightarrow> cancelled_ctxs g)"
  by (simp_all add: install_def Let_def split: option.splits)

lemma cancel_fields:
  "MaxGlobalItemsToDisplayWebsearch (cancel ctx g) = MaxGlobalItemsToDisplayWebsearch g"
  "WebsearchAlwaysShow (cancel ctx g) = WebsearchAlwaysShow g"
  "WebsearchPrefixes (cancel ctx g) = WebsearchPrefixes g"
  "qid (cancel ctx g) = qid g"
  "next_ctx (cancel ctx g) = next_ctx g"
  "queries (cancel ctx g) = queries g"
  "cancelled_ctxs (cancel ctx g) = insert ctx (cancelled_ctxs g)"
  by (simp_all add: cancel_def)

lemma hideWebsearch_installed:
  "hideWebsearch (install cid ctx (g\<lparr>qid := q\<rparr>)) req es = hideWebsearch g req es"
  by (simp add: hideWebsearch_def install_fields)

lemma wsprefix_of_qid: "wsprefix_of (g\<lparr>qid := q\<rparr>) req = wsprefix_of g req"
  by (simp add: wsprefix_of_def)

lemma dispatch_installed:
  "dispatch E (install cid ctx (g\<lparr>qid := q\<rparr>)) format qqid req wsp c = dispatch E g format qqid req wsp c"
  by (simp add: dispatch_unfold hideWebsearch_installed cong: option.case_cong)

lemma Handle_failed:
  "decode E format data = None \<Longrightarrow> Handle E format cid data g c = (DecodeFailed, g\<lparr>qid := qid g + 1\<rparr>, c)"
  by (simp add: Handle_def Let_def)

lemma Handle_decoded:
  assumes "decode E format data = Some req"
  shows "Handle E format cid data g c =
     (fst (dispatch E g format (qid g + 1) req (wsprefix_of g req) c),
      cancel (next_ctx g) (install cid (next_ctx g) (g\<lparr>qid := qid g + 1\<rparr>)),
      snd (dispatch E g format (qid g + 1) req (wsprefix_of g req) c))"
  using assms
  by (simp add: Handle_def Let_def wsprefix_of_qid dispatch_installed split: prod.splits)

lemma writeStatus_conn:
  "closed (writeStatus opcode c) = closed c \<and> accepts (writeStatus opcode c) = accepts c"
  using writeStatus_cases[of opcode c] by auto

lemma dispatch_trace:
  assumes "dispatch E g format qqid req (wsprefix_of g req) c = (e, c')"
  shows "\<exists>tail. written c' =
           written c @ map (item_frame E format qqid (Query req)) (emitted E g format qqid req c) @ tail \<and>
         (if e = NoResults then (tail = [] \<or> tail = [noresults_frame] \<or> tail = [noresults_frame, done_frame])
              \<and> emitted E g format qqid req c = []
          else if e = Finished then tail = [] \<or> tail = [done_frame]
          else tail = [])"
proof (cases "isCncld E 0")
  case True
  with assms show ?thesis by (simp add: dispatch_unfold emitted_def)
next
  case nc: False
  show ?thesis
  proof (cases "sorted_entries E format req = []")
    case True
    then have cp: "capped E format req = []"
      by (simp add: capped_def cap_def slice_to_def)
    have e: "e = NoResults" and c': "c' = writeStatus QueryDone (writeStatus QueryNoResults c)"
      using assms nc True by (simp_all add: dispatch_unfold)
    have em: "emitted E g format qqid req c = []"
      by (simp add: emitted_def cp)
    show ?thesis
    proof (cases "Write c (frame QueryNoResults [])")
      case None
      then have "Write c (frame QueryDone []) = None"
        by (auto simp: Write_def split: if_splits)
      with None have "c' = c" using c' by (simp add: writeStatus_def)
      with e em show ?thesis by simp
    next
      case (Some c1)
      then have c1: "writeStatus QueryNoResults c = c1" and w1: "written c1 = written c @ [noresults_frame]"
        by (simp_all add: writeStatus_def Write_written noresults_frame_def)
      have "c' = c1 \<or> c' = c1\<lparr>written := written c1 @ [done_frame]\<rparr>"
        using writeStatus_cases[of QueryDone c1] c' c1 by (simp add: done_frame_def)
      with w1 e em show ?thesis by auto
    qed
  next
    case ne: False
    show ?thesis
    proof (cases "cap (sorted_entries E format req) (Maxresults req)")
      case None
      then have "capped E format req = []" by (simp add: capped_def)
      with None assms nc ne show ?thesis by (simp add: dispatch_unfold emitted_def)
    next
      case (Some es)
      then have cp: "capped E format req = es" by (simp add: capped_def)
      let ?r = "emit E format qqid (Query req) (hideWebsearch g req es) (wsprefix_of g req) 1 es c"
      have em: "emitted E g format qqid req c =
          sent E format qqid (Query req) (hideWebsearch g req es) (wsprefix_of g req) 1 es c"
        using nc by (simp add: emitted_def cp)
      have w: "written (snd ?r) = written c @ map (item_frame E format qqid (Query req)) (emitted E g format qqid req c)"
        unfolding em by (rule emit_written)
      have d: "(e, c') = (case ?r of (None, c') \<Rightarrow> (Finished, writeStatus QueryDone c') | (Some e, c') \<Rightarrow> (e, c'))"
        using assms nc ne Some by (simp add: dispatch_unfold)
      show ?thesis
      proof (cases "fst ?r")
        case None
        then have e: "e = Finished" and c': "c' = writeStatus QueryDone (snd ?r)"
          using d by (simp_all split: prod.splits)
        have "c' = snd ?r \<or> c' = (snd ?r)\<lparr>written := written (snd ?r) @ [done_frame]\<rparr>"
          using writeStatus_cases[of QueryDone "snd ?r"] c' by (simp add: done_frame_def)
        with e w show ?thesis by auto
      next
        case (Some x)
        then have e: "e = x" and c': "c' = snd ?r"
          using d by (simp_all split: prod.splits)
        have "x = Cancelled \<or> x = WriteFailed"
          using emit_exit[of E format qqid "Query req" "hideWebsearch g req es" "wsprefix_of g req" 1 es c] Some
          by simp
        with e c' w show ?thesis by auto
      qed
    qed
  qed
qed

lemma Handle_trace:
  assumes "decode E format data = Some req" and "Handle E format cid data g c = (e, g', c')"
  shows "\<exists>tail. written c' =
           written c @ map (item_frame E format (qid g + 1) (Query req))
             (emitted E g format (qid g + 1) req c) @ tail \<and>
         (if e = NoResults then (tail = [] \<or> tail = [noresults_frame] \<or> tail = [noresults_frame, done_frame])
              \<and> emitted E g format (qid g + 1) req c = []
          else if e = Finished then tail = [] \<or> tail = [done_frame]
          else tail = [])"
proof -
  have "e = fst (dispatch E g format (qid g + 1) req (wsprefix_of g req) c)"
    and "c' = snd (dispatch E g format (qid g + 1) req (wsprefix_of g req) c)"
    using assms by (simp_all add: Handle_decoded)
  then have "dispatch E g format (qid g + 1) req (wsprefix_of g req) c = (e, c')"
    by simp
  then show ?thesis by (rule dispatch_trace)
qed

subsection \<open>Consequences for a call of the handler\<close>

lemma Handle_qid: "qid (fst (snd (Handle E format cid data g c))) = qid g + 1"
proof (cases "decode E format data")
  case None
  then show ?thesis by (simp add: Handle_failed)
next
  case (Some req)
  then show ?thesis by (simp add: Handle_decoded cancel_fields install_fields)
qed

lemma Handle_written:
  assumes "decode E format data = Some req"
  shows "\<exists>its tail.
           written (snd (snd (Handle E format cid data g c))) =
             written c @ map (item_frame E format (qid g + 1) (Query req)) its @ tail \<and>
           set tail \<subseteq> {noresults_frame, done_frame}"
proof -
  obtain e g' c' where h: "Handle E format cid data g c = (e, g', c')"
    by (cases "Handle E format cid data g c") auto
  from Handle_trace[OF assms h] obtain tail where
    w: "written c' = written c @ map (item_frame E format (qid g + 1) (Query req))
          (emitted E g format (qid g + 1) req c) @ tail"
    and t: "tail = [] \<or> tail = [noresults_frame] \<or> tail = [noresults_frame, done_frame] \<or> tail = [done_frame]"
    by (auto split: if_splits)
  from t have "set tail \<subseteq> {noresults_frame, done_frame}" by auto
  with w h show ?thesis by auto
qed

lemma sorted_entries_empty:
  assumes "sort_contract E"
  shows "sorted_entries E format req = [] \<longleftrightarrow> merged E format req = []"
proof -
  have "mset (sorted_entries E format req) = mset (merged E format req)"
    using assms by (simp add: sort_contract_def sorted_entries_def)
  then show ?thesis by (metis mset_zero_iff)
qed

lemma sorted_entries_sorted:
  assumes "sort_contract E"
  shows "sorted_wrt (\<lambda>a b. sortEntries E a b \<le> 0) (sorted_entries E format req)"
  using assms by (simp add: sort_contract_def sorted_entries_def)

lemma cap_nonneg: "0 \<le> sint m \<Longrightarrow> cap es m = Some (take (nat (sint m)) es)"
  by (simp add: cap_def slice_to_def)

lemma cap_negative: "sint m < 0 \<Longrightarrow> cap es m = None"
  by (simp add: cap_def slice_to_def)

lemma capped_nonneg:
  "0 \<le> sint (Maxresults req) \<Longrightarrow>
   capped E format req = take (nat (sint (Maxresults req))) (sorted_entries E format req)"
  by (simp add: capped_def cap_nonneg)

lemma capped_prefix: "\<exists>n. capped E format req = take n (sorted_entries E format req)"
proof (cases "0 \<le> sint (Maxresults req)")
  case True
  then show ?thesis using capped_nonneg by blast
next
  case False
  then have "capped E format req = take 0 (sorted_entries E format req)"
    by (simp add: capped_def cap_negative)
  then show ?thesis by blast
qed

lemma menu_of_no_colon: "CHR '':'' \<notin> set m \<Longrightarrow> menu_of (''menus:'' @ m) = m"
proof -
  assume "CHR '':'' \<notin> set m"
  then have "takeWhile (\<lambda>c. c \<noteq> CHR '':'') m = m"
    by (auto simp: takeWhile_eq_all_conv)
  then show ?thesis by (simp add: menu_of_def)
qed

lemma Handle_dispatch:
  assumes "decode E format data = Some req" and "Handle E format cid data g c = (e, g', c')"
  shows "dispatch E g format (qid g + 1) req (wsprefix_of g req) c = (e, c')"
proof -
  have "e = fst (dispatch E g format (qid g + 1) req (wsprefix_of g req) c)"
    and "c' = snd (dispatch E g format (qid g + 1) req (wsprefix_of g req) c)"
    using assms by (simp_all add: Handle_decoded)
  then show ?thesis by simp
qed

lemma dispatch_emitting:
  assumes "\<not> isCncld E 0" and "capped E format req \<noteq> []"
  shows "dispatch E g format qqid req wsp c =
     (case emit E format qqid (Query req) (hideWebsearch g req (capped E format req)) wsp 1
             (capped E format req) c of
        (None, c') \<Rightarrow> (Finished, writeStatus QueryDone c')
      | (Some e, c') \<Rightarrow> (e, c'))"
proof -
  from assms(2) obtain es where es: "cap (sorted_entries E format req) (Maxresults req) = Some es"
    and cp: "capped E format req = es"
    by (auto simp: capped_def split: option.splits)
  have "sorted_entries E format req \<noteq> []"
    using assms(2) es cp by (auto simp: cap_def slice_to_def split: if_splits)
  with assms(1) es cp show ?thesis by (simp add: dispatch_unfold)
qed


lemma emitted_subseq: "subseq (emitted E g format qqid req c) (capped E format req)"
  by (simp add: emitted_def sent_subseq)

lemma emitted_not_suppressed:
  "v \<in> set (emitted E g format qqid req c) \<Longrightarrow>
   \<not> suppressed (hideWebsearch g req (capped E format req)) (wsprefix_of g req) v"
  by (auto simp: emitted_def dest: sent_not_suppressed split: if_splits)

lemma emitted_complete:
  assumes "\<forall>k. \<not> isCncld E k" and "\<not> closed c" and "\<forall>n. accepts c n"
  shows "emitted E g format qqid req c =
     filter (\<lambda>v. \<not> suppressed (hideWebsearch g req (capped E format req)) (wsprefix_of g req) v \<and>
                 marshal E format \<lparr>Qid = qqid, RQuery = Query req, RItem = v\<rparr> \<noteq> None)
       (capped E format req)"
  using emit_complete[OF assms] assms(1) by (simp add: emitted_def)

lemma Handle_emitted:
  assumes "decode E format data = Some req" and "Handle E format cid data g c = (e, g', c')"
  shows "\<exists>tail. written c' =
           written c @ map (item_frame E format (qid g + 1) (Query req))
             (emitted E g format (qid g + 1) req c) @ tail \<and>
           set tail \<subseteq> {noresults_frame, done_frame}"
proof -
  from Handle_trace[OF assms] obtain tail where
    w: "written c' = written c @ map (item_frame E format (qid g + 1) (Query req))
          (emitted E g format (qid g + 1) req c) @ tail"
    and t: "tail = [] \<or> tail = [noresults_frame] \<or> tail = [noresults_frame, done_frame] \<or> tail = [done_frame]"
    by (auto split: if_splits)
  from t have "set tail \<subseteq> {noresults_frame, done_frame}" by auto
  with w show ?thesis by blast
qed

lemma sorted_split:
  assumes "sort_contract E"
  shows "\<forall>a\<in>set (take n (sorted_entries E format req)).
           \<forall>b\<in>set (drop n (sorted_entries E format req)). sortEntries E a b \<le> 0"
proof -
  have "sorted_wrt (\<lambda>a b. sortEntries E a b \<le> 0)
      (take n (sorted_entries E format req) @ drop n (sorted_entries E format req))"
    using sorted_entries_sorted[OF assms] by simp
  then show ?thesis unfolding sorted_wrt_append by blast
qed

lemma capped_sorted:
  assumes "sort_contract E"
  shows "sorted_wrt (\<lambda>a b. sortEntries E a b \<le> 0) (capped E format req)"
proof -
  obtain n where "capped E format req = take n (sorted_entries E format req)"
    using capped_prefix by blast
  then show ?thesis
    using sorted_entries_sorted[OF assms, of format req] by (simp add: sorted_wrt_take)
qed

lemma emitted_sorted:
  assumes "sort_contract E"
  shows "sorted_wrt (\<lambda>a b. sortEntries E a b \<le> 0) (emitted E g format qqid req c)"
  using emitted_subseq capped_sorted[OF assms] by (rule sorted_wrt_subseq)






section \<open>The claims of the specification\<close>

lemmas test_defs = test_env_def request_def g0_def c0_def decode_def wsprefix_of_def install_def
   dispatch_def test_registry_def run_provider_def route_def HasPrefix_def insertion_sort_def
   sortEntries_def item_def ascii_lower_def cap_def slice_to_def hideWebsearch_def marshal_def
   Write_def frame_def PutUint32_def writeStatus_def cancel_def QueryItem_def QueryDone_def
   QueryNoResults_def

subsection \<open>C1: the order of the emitted items\<close>

text \<open>
  C1: the \<open>QueryItem\<close> frames a query writes are the frames of a list of items in
  which every item has a score not smaller than that of every later item and, where the
  scores are equal, a lowered text that is equal to or bytewise lexicographically
  smaller than the later one's. The comparator is negative exactly when the first item
  comes strictly before the second in that order, zero exactly when score and lowered
  text agree, positive exactly when the second comes strictly before the first; it
  compares any two items and is transitive.
\<close>

theorem emitted_in_rank_order:
  assumes "decode E format data = Some req" and "sort_contract E"
    and "Handle E format cid data g c = (e, g', c')"
  shows "(\<exists>its tail.
            written c' = written c @ map (item_frame E format (qid g + 1) (Query req)) its @ tail \<and>
            set tail \<subseteq> {noresults_frame, done_frame} \<and>
            sorted_wrt (\<lambda>a b. sint (Score b) \<le> sint (Score a) \<and>
                (Score a = Score b \<longrightarrow>
                   strings_ToLower E (Text a) = strings_ToLower E (Text b) \<or>
                   (strings_ToLower E (Text a), strings_ToLower E (Text b)) \<in> lexord byte_lt)) its) \<and>
         (\<forall>a b. (sortEntries E a b < 0 \<longleftrightarrow> before E a b) \<and>
                (sortEntries E a b = 0 \<longleftrightarrow> tied E a b) \<and>
                (0 < sortEntries E a b \<longleftrightarrow> before E b a) \<and>
                (sortEntries E a b \<le> 0 \<or> sortEntries E b a \<le> 0)) \<and>
         (\<forall>a b c. sortEntries E a b \<le> 0 \<and> sortEntries E b c \<le> 0 \<longrightarrow> sortEntries E a c \<le> 0)"
proof -
  let ?its = "emitted E g format (qid g + 1) req c"
  let ?R = "\<lambda>a b. sint (Score b) \<le> sint (Score a) \<and>
                (Score a = Score b \<longrightarrow>
                   strings_ToLower E (Text a) = strings_ToLower E (Text b) \<or>
                   (strings_ToLower E (Text a), strings_ToLower E (Text b)) \<in> lexord byte_lt)"
  from Handle_emitted[OF assms(1,3)] obtain tail where
    w: "written c' = written c @ map (item_frame E format (qid g + 1) (Query req)) ?its @ tail"
    and t: "set tail \<subseteq> {noresults_frame, done_frame}"
    by blast
  have imp: "\<And>a b. sortEntries E a b \<le> 0 \<Longrightarrow> ?R a b"
    by (auto simp: sortEntries_le ranked_def before_def tied_def)
  have "sorted_wrt (\<lambda>a b. sortEntries E a b \<le> 0) ?its"
    using assms(2) by (rule emitted_sorted)
  then have s: "sorted_wrt ?R ?its"
    by (rule sorted_wrt_mono_rel[rotated]) (simp add: imp)
  have cmp: "\<forall>a b. (sortEntries E a b < 0 \<longleftrightarrow> before E a b) \<and>
                (sortEntries E a b = 0 \<longleftrightarrow> tied E a b) \<and>
                (0 < sortEntries E a b \<longleftrightarrow> before E b a) \<and>
                (sortEntries E a b \<le> 0 \<or> sortEntries E b a \<le> 0)"
    using sortEntries_neg sortEntries_zero sortEntries_pos sortEntries_total by blast
  have tr: "\<forall>a b c. sortEntries E a b \<le> 0 \<and> sortEntries E b c \<le> 0 \<longrightarrow> sortEntries E a c \<le> 0"
    using sortEntries_trans by blast
  from w t s cmp tr show ?thesis by blast
qed

theorem emitted_in_rank_order_witness:
  "sort_contract (test_env (Some (request [''files'', ''websearch''] ''g foo'' 10)) (\<lambda>k. False)) \<and>
   (\<exists>its tail.
      written (snd (snd (Handle (test_env (Some (request [''files'', ''websearch''] ''g foo'' 10))
        (\<lambda>k. False)) 1 7 [] g0 c0))) =
      map (item_frame (test_env (Some (request [''files'', ''websearch''] ''g foo'' 10)) (\<lambda>k. False)) 1 1
        ''g foo'') its @ tail \<and>
      set tail \<subseteq> {noresults_frame, done_frame} \<and>
      sorted_wrt (\<lambda>a b. sint (Score b) \<le> sint (Score a) \<and>
          (Score a = Score b \<longrightarrow>
             ascii_lower (Text a) = ascii_lower (Text b) \<or>
             (ascii_lower (Text a), ascii_lower (Text b)) \<in> lexord byte_lt)) its) \<and>
   written (snd (snd (Handle (test_env (Some (request [''files'', ''websearch''] ''g foo'' 10))
        (\<lambda>k. False)) 1 7 [] g0 c0))) =
     map (item_frame (test_env (Some (request [''files'', ''websearch''] ''g foo'' 10)) (\<lambda>k. False)) 1 1
        ''g foo'')
       [item ''websearch'' ''Google'' 7, item ''files'' ''alpha'' 5, item ''files'' ''Beta'' 5,
        item ''files'' ''gamma'' 3] @ [done_frame] \<and>
   before (test_env (Some (request [''files'', ''websearch''] ''g foo'' 10)) (\<lambda>k. False))
     (item ''files'' ''alpha'' 5) (item ''files'' ''Beta'' 5)"
proof -
  let ?r = "request [''files'', ''websearch''] ''g foo'' 10"
  let ?E = "test_env (Some ?r) (\<lambda>k. False)"
  have d: "decode ?E 1 [] = Some ?r"
    by (simp add: decode_def test_env_def)
  have qr: "Query ?r = ''g foo''" by (simp add: request_def)
  have q: "qid g0 + 1 = 1" by (simp add: g0_def)
  have w0: "written c0 = []" by (simp add: c0_def)
  have lo: "strings_ToLower ?E = ascii_lower" by (simp add: test_env_def)
  obtain e g' c' where h: "Handle ?E 1 7 [] g0 c0 = (e, g', c')"
    by (cases "Handle ?E 1 7 [] g0 c0") auto
  note t = emitted_in_rank_order[OF d sort_contract_test_env h]
  have a: "\<exists>its tail.
      written c' = map (item_frame ?E 1 1 ''g foo'') its @ tail \<and>
      set tail \<subseteq> {noresults_frame, done_frame} \<and>
      sorted_wrt (\<lambda>a b. sint (Score b) \<le> sint (Score a) \<and>
          (Score a = Score b \<longrightarrow>
             ascii_lower (Text a) = ascii_lower (Text b) \<or>
             (ascii_lower (Text a), ascii_lower (Text b)) \<in> lexord byte_lt)) its"
    using t[THEN conjunct1] unfolding q w0 qr lo by simp
  have "sortEntries ?E (item ''files'' ''alpha'' 5) (item ''files'' ''Beta'' 5) < 0"
    by (simp add: test_defs)
  then have b: "before ?E (item ''files'' ''alpha'' 5) (item ''files'' ''Beta'' 5)"
    using t[THEN conjunct2, THEN conjunct1] by blast
  have c: "written (snd (snd (Handle ?E 1 7 [] g0 c0))) =
     map (item_frame ?E 1 1 ''g foo'')
       [item ''websearch'' ''Google'' 7, item ''files'' ''alpha'' 5, item ''files'' ''Beta'' 5,
        item ''files'' ''gamma'' 3] @ [done_frame]"
    by (simp add: Handle_def item_frame_def done_frame_def test_defs)
  from a b c h sort_contract_test_env[of "Some ?r" "\<lambda>k. False"] show ?thesis by simp
qed

subsection \<open>C2: cancellation\<close>

text \<open>
  C2: when the cancellation signal is set at the poll after the barrier, the handler
  returns with the connection exactly as it found it: no \<open>QueryItem\<close>, no
  \<open>QueryNoResults\<close>, no \<open>QueryDone\<close>. When the signal is set at the poll before
  the entry at position \<open>n\<close> of the capped list, the handler ends as cancelled (or on
  an earlier write error), and what it has written are frames of entries before
  position \<open>n\<close> only, with no status frame after them.
\<close>

theorem no_frame_after_cancellation:
  assumes "Handle E format cid data g c = (e, g', c')"
  shows "(isCncld E 0 \<longrightarrow> c' = c \<and> (e = Cancelled \<or> e = DecodeFailed)) \<and>
         (\<forall>req n. decode E format data = Some req \<and> isCncld E (Suc n) \<and>
              n < length (capped E format req) \<longrightarrow>
            (e = Cancelled \<or> e = WriteFailed) \<and>
            (\<exists>its. subseq its (take n (capped E format req)) \<and>
               written c' = written c @ map (item_frame E format (qid g + 1) (Query req)) its))"
proof -
  have first: "isCncld E 0 \<longrightarrow> c' = c \<and> (e = Cancelled \<or> e = DecodeFailed)"
  proof
    assume c0: "isCncld E 0"
    show "c' = c \<and> (e = Cancelled \<or> e = DecodeFailed)"
    proof (cases "decode E format data")
      case None
      with assms show ?thesis by (simp add: Handle_failed)
    next
      case (Some req)
      from Handle_dispatch[OF Some assms] c0 show ?thesis by (simp add: dispatch_unfold)
    qed
  qed
  have second: "(e = Cancelled \<or> e = WriteFailed) \<and>
        (\<exists>its. subseq its (take n (capped E format req)) \<and>
               written c' = written c @ map (item_frame E format (qid g + 1) (Query req)) its)"
    if a: "decode E format data = Some req \<and> isCncld E (Suc n) \<and> n < length (capped E format req)"
    for req n
  proof -
    from a have d: "decode E format data = Some req" and cn: "isCncld E (Suc n)"
      and n: "n < length (capped E format req)" by simp_all
    let ?es = "capped E format req"
    let ?r = "emit E format (qid g + 1) (Query req) (hideWebsearch g req ?es) (wsprefix_of g req) 1 ?es c"
    let ?s = "sent E format (qid g + 1) (Query req) (hideWebsearch g req ?es) (wsprefix_of g req) 1 ?es c"
    have dis: "dispatch E g format (qid g + 1) req (wsprefix_of g req) c = (e, c')"
      using d assms by (rule Handle_dispatch)
    show ?thesis
    proof (cases "isCncld E 0")
      case True
      with dis have "e = Cancelled" "c' = c" by (simp_all add: dispatch_unfold)
      then show ?thesis by auto
    next
      case False
      have ne: "?es \<noteq> []" using n by auto
      have ex: "fst ?r = Some Cancelled \<or> fst ?r = Some WriteFailed"
        using emit_cancel_exit[of E 1 n ?es] cn n by simp
      have "(e, c') = (case ?r of (None, c') \<Rightarrow> (Finished, writeStatus QueryDone c') | (Some e, c') \<Rightarrow> (e, c'))"
        using dis dispatch_emitting[OF False ne] by simp
      with ex have e: "e = Cancelled \<or> e = WriteFailed" and c': "c' = snd ?r"
        by (auto split: prod.splits option.splits)
      have w: "written c' = written c @ map (item_frame E format (qid g + 1) (Query req)) ?s"
        unfolding c' by (rule emit_written)
      have "subseq ?s (take n ?es)"
        using sent_before_cancel[of E 1 n] cn by simp
      with e w show ?thesis by blast
    qed
  qed
  from first second show ?thesis by blast
qed

theorem no_frame_after_cancellation_witness:
  "snd (snd (Handle (test_env (Some (request [''files''] ''x'' 10)) (\<lambda>k. True)) 1 7 [] g0 c0)) = c0 \<and>
   fst (Handle (test_env (Some (request [''files''] ''x'' 10)) (\<lambda>k. k = 2)) 1 7 [] g0 c0) = Cancelled \<and>
   written (snd (snd (Handle (test_env (Some (request [''files''] ''x'' 10)) (\<lambda>k. k = 2)) 1 7 [] g0 c0)))
     = [item_frame (test_env (Some (request [''files''] ''x'' 10)) (\<lambda>k. k = 2)) 1 1 ''x''
          (item ''files'' ''alpha'' 5)]"
proof -
  let ?req = "request [''files''] ''x'' 10"
  let ?A = "test_env (Some ?req) (\<lambda>k. True)" and ?B = "test_env (Some ?req) (\<lambda>k. k = 2)"
  obtain e g' c' where ha: "Handle ?A 1 7 [] g0 c0 = (e, g', c')"
    by (cases "Handle ?A 1 7 [] g0 c0") auto
  have "isCncld ?A 0" by (simp add: test_env_def)
  with no_frame_after_cancellation[OF ha] have "c' = c0" by blast
  with ha have a: "snd (snd (Handle ?A 1 7 [] g0 c0)) = c0" by simp
  obtain e2 g2 c2 where hb: "Handle ?B 1 7 [] g0 c0 = (e2, g2, c2)"
    by (cases "Handle ?B 1 7 [] g0 c0") auto
  have d: "decode ?B 1 [] = Some ?req" by (simp add: decode_def test_env_def)
  have p: "isCncld ?B (Suc 1)" by (simp add: test_env_def)
  have cp: "capped ?B 1 ?req = [item ''files'' ''alpha'' 5, item ''files'' ''Beta'' 5, item ''files'' ''gamma'' 3]"
    by (simp add: capped_def sorted_entries_def merged_def test_defs)
  have "(e2 = Cancelled \<or> e2 = WriteFailed) \<and>
        (\<exists>its. subseq its (take 1 (capped ?B 1 ?req)) \<and>
           written c2 = written c0 @ map (item_frame ?B 1 (qid g0 + 1) (Query ?req)) its)"
    using no_frame_after_cancellation[OF hb, THEN conjunct2, rule_format, of ?req 1] d p cp by simp
  moreover have "fst (Handle ?B 1 7 [] g0 c0) = Cancelled"
    and "length (written (snd (snd (Handle ?B 1 7 [] g0 c0)))) = 1"
    by (simp_all add: Handle_def test_defs)
  ultimately obtain its where its: "subseq its [item ''files'' ''alpha'' 5]"
    and w: "written c2 = map (item_frame ?B 1 1 ''x'') its" and l: "length (written c2) = 1"
    using hb cp by (auto simp: g0_def c0_def request_def)
  from w l have "length its = 1" by simp
  with its have "its = [item ''files'' ''alpha'' 5]"
    by (cases its) (auto split: if_splits)
  with w hb have b: "written (snd (snd (Handle ?B 1 7 [] g0 c0))) = [item_frame ?B 1 1 ''x'' (item ''files'' ''alpha'' 5)]"
    by simp
  have "fst (Handle ?B 1 7 [] g0 c0) = Cancelled"
    by (simp add: Handle_def test_defs)
  with a b show ?thesis by simp
qed

subsection \<open>C3: the suppression of web search items\<close>

text \<open>
  C3 computes \<open>hide_websearch\<close> from the merged item count. The handler compares
  the length of the list after the cap: with two providers, four merged items, one
  slot, \<open>always_show\<close> off and \<open>maxresults = 1\<close>, the formula of C3 is true, and
  yet the one frame streamed is the web search item, whose text is not the prefix hint
  (the hint is empty).
\<close>

theorem websearch_shown_when_cap_hides_the_count:
  "length (Providers (request [''files'', ''websearch''] ''x'' 1)) > 1 \<and>
   int (length (merged (test_env (Some (request [''files'', ''websearch''] ''x'' 1)) (\<lambda>k. False)) 1
      (request [''files'', ''websearch''] ''x'' 1))) > MaxGlobalItemsToDisplayWebsearch g0 \<and>
   \<not> WebsearchAlwaysShow g0 \<and>
   wsprefix_of g0 (request [''files'', ''websearch''] ''x'' 1) = [] \<and>
   written (snd (snd (Handle (test_env (Some (request [''files'', ''websearch''] ''x'' 1)) (\<lambda>k. False))
      1 7 [] g0 c0)))
     = [item_frame (test_env (Some (request [''files'', ''websearch''] ''x'' 1)) (\<lambda>k. False)) 1 1 ''x''
          (item ''websearch'' ''Google'' 7), done_frame]"
  by (simp add: Handle_def merged_def item_frame_def done_frame_def test_defs)

text \<open>
  C3, as amended: \<open>hide_websearch\<close> is (more than one requested provider) and (the
  number of entries left after the result cap exceeds the slots) and not
  \<open>always_show\<close>. The frames written are those of a subsequence of the capped
  entries; when \<open>hide_websearch\<close> holds none of them is a web search item, unless its
  text equals the hint computed for the query; and a query that is never found
  cancelled, on a connection that accepts every write, streams exactly the capped
  entries that are not suppressed and that the codec can encode.
\<close>

theorem websearch_suppression:
  assumes "decode E format data = Some req" and "Handle E format cid data g c = (e, g', c')"
  shows "\<exists>its tail.
           written c' = written c @ map (item_frame E format (qid g + 1) (Query req)) its @ tail \<and>
           set tail \<subseteq> {noresults_frame, done_frame} \<and>
           subseq its (capped E format req) \<and>
           (\<forall>v\<in>set its. \<not> (Provider v = ''websearch'' \<and>
               (length (Providers req) > 1 \<and>
                int (length (capped E format req)) > MaxGlobalItemsToDisplayWebsearch g \<and>
                \<not> WebsearchAlwaysShow g) \<and>
               Text v \<noteq> wsprefix_of g req)) \<and>
           ((\<forall>k. \<not> isCncld E k) \<and> \<not> closed c \<and> (\<forall>n. accepts c n) \<longrightarrow>
              its = filter (\<lambda>v. \<not> (Provider v = ''websearch'' \<and>
                    (length (Providers req) > 1 \<and>
                     int (length (capped E format req)) > MaxGlobalItemsToDisplayWebsearch g \<and>
                     \<not> WebsearchAlwaysShow g) \<and>
                    Text v \<noteq> wsprefix_of g req) \<and>
                  marshal E format \<lparr>Qid = qid g + 1, RQuery = Query req, RItem = v\<rparr> \<noteq> None)
                (capped E format req))"
proof -
  let ?its = "emitted E g format (qid g + 1) req c"
  let ?hide = "length (Providers req) > 1 \<and>
                int (length (capped E format req)) > MaxGlobalItemsToDisplayWebsearch g \<and>
                \<not> WebsearchAlwaysShow g"
  have sup: "\<And>v. suppressed (hideWebsearch g req (capped E format req)) (wsprefix_of g req) v \<longleftrightarrow>
      (Provider v = ''websearch'' \<and> ?hide \<and> Text v \<noteq> wsprefix_of g req)"
    by (simp add: suppressed_def hideWebsearch_def)
  from Handle_emitted[OF assms] obtain tail where
    w: "written c' = written c @ map (item_frame E format (qid g + 1) (Query req)) ?its @ tail"
    and t: "set tail \<subseteq> {noresults_frame, done_frame}"
    by blast
  have s: "subseq ?its (capped E format req)" by (rule emitted_subseq)
  have n: "\<forall>v\<in>set ?its. \<not> (Provider v = ''websearch'' \<and> ?hide \<and> Text v \<noteq> wsprefix_of g req)"
    using emitted_not_suppressed[of _ E g format "qid g + 1" req c] unfolding sup by blast
  have f: "(\<forall>k. \<not> isCncld E k) \<and> \<not> closed c \<and> (\<forall>n. accepts c n) \<longrightarrow>
      ?its = filter (\<lambda>v. \<not> (Provider v = ''websearch'' \<and> ?hide \<and> Text v \<noteq> wsprefix_of g req) \<and>
                  marshal E format \<lparr>Qid = qid g + 1, RQuery = Query req, RItem = v\<rparr> \<noteq> None)
                (capped E format req)"
    using emitted_complete[of E c g format "qid g + 1" req] unfolding sup by blast
  from w t s n f show ?thesis by blast
qed

theorem websearch_suppression_witness:
  "decode (test_env (Some (request [''files'', ''websearch''] ''x'' 10)) (\<lambda>k. False)) 1 [] =
     Some (request [''files'', ''websearch''] ''x'' 10) \<and>
   (\<exists>tail. written (snd (snd (Handle (test_env (Some (request [''files'', ''websearch''] ''x'' 10))
        (\<lambda>k. False)) 1 7 [] g0 c0))) =
      map (item_frame (test_env (Some (request [''files'', ''websearch''] ''x'' 10)) (\<lambda>k. False)) 1 1 ''x'')
        [item ''files'' ''alpha'' 5, item ''files'' ''Beta'' 5, item ''files'' ''gamma'' 3] @ tail \<and>
      set tail \<subseteq> {noresults_frame, done_frame}) \<and>
   wsprefix_of g0 (request [''files'', ''websearch''] ''g foo'' 10) = ''Google'' \<and>
   (\<exists>tail. written (snd (snd (Handle (test_env (Some (request [''files'', ''websearch''] ''g foo'' 10))
        (\<lambda>k. False)) 1 7 [] g0 c0))) =
      map (item_frame (test_env (Some (request [''files'', ''websearch''] ''g foo'' 10)) (\<lambda>k. False)) 1 1 ''g foo'')
        [item ''websearch'' ''Google'' 7, item ''files'' ''alpha'' 5, item ''files'' ''Beta'' 5,
         item ''files'' ''gamma'' 3] @ tail \<and>
      set tail \<subseteq> {noresults_frame, done_frame})"
proof -
  let ?r1 = "request [''files'', ''websearch''] ''x'' 10"
  let ?r2 = "request [''files'', ''websearch''] ''g foo'' 10"
  let ?E1 = "test_env (Some ?r1) (\<lambda>k. False)" and ?E2 = "test_env (Some ?r2) (\<lambda>k. False)"
  have d1: "decode ?E1 1 [] = Some ?r1" and d2: "decode ?E2 1 [] = Some ?r2"
    by (simp_all add: decode_def test_env_def)
  have p1: "\<forall>k. \<not> isCncld ?E1 k" and p2: "\<forall>k. \<not> isCncld ?E2 k"
    by (simp_all add: test_env_def)
  have o: "\<not> closed c0" and a: "\<forall>n. accepts c0 n" and w0: "written c0 = []"
    by (simp_all add: c0_def)
  have q: "qid g0 + 1 = 1" and mx: "MaxGlobalItemsToDisplayWebsearch g0 = 1"
    and al: "\<not> WebsearchAlwaysShow g0"
    by (simp_all add: g0_def)
  have c1: "capped ?E1 1 ?r1 = [item ''websearch'' ''Google'' 7, item ''files'' ''alpha'' 5,
      item ''files'' ''Beta'' 5, item ''files'' ''gamma'' 3]"
    by (simp add: capped_def sorted_entries_def merged_def test_defs)
  have c2: "capped ?E2 1 ?r2 = [item ''websearch'' ''Google'' 7, item ''files'' ''alpha'' 5,
      item ''files'' ''Beta'' 5, item ''files'' ''gamma'' 3]"
    by (simp add: capped_def sorted_entries_def merged_def test_defs)
  have ws1: "wsprefix_of g0 ?r1 = []" and ws2: "wsprefix_of g0 ?r2 = ''Google''"
    by (simp_all add: wsprefix_of_def g0_def request_def HasPrefix_def)
  have pr: "Providers ?r1 = [''files'', ''websearch'']" "Providers ?r2 = [''files'', ''websearch'']"
    "Query ?r1 = ''x''" "Query ?r2 = ''g foo''"
    by (simp_all add: request_def)
  obtain e1 g1 k1 where h1: "Handle ?E1 1 7 [] g0 c0 = (e1, g1, k1)"
    by (cases "Handle ?E1 1 7 [] g0 c0") auto
  obtain e2 g2 k2 where h2: "Handle ?E2 1 7 [] g0 c0 = (e2, g2, k2)"
    by (cases "Handle ?E2 1 7 [] g0 c0") auto
  have "\<exists>tail. written k1 = map (item_frame ?E1 1 1 ''x'')
        [item ''files'' ''alpha'' 5, item ''files'' ''Beta'' 5, item ''files'' ''gamma'' 3] @ tail \<and>
      set tail \<subseteq> {noresults_frame, done_frame}"
    using websearch_suppression[OF d1 h1] p1 o a
    unfolding q c1 ws1 mx w0 pr by (simp add: marshal_def test_env_def al item_def)
  moreover have "\<exists>tail. written k2 = map (item_frame ?E2 1 1 ''g foo'')
        [item ''websearch'' ''Google'' 7, item ''files'' ''alpha'' 5, item ''files'' ''Beta'' 5,
         item ''files'' ''gamma'' 3] @ tail \<and>
      set tail \<subseteq> {noresults_frame, done_frame}"
    using websearch_suppression[OF d2 h2] p2 o a
    unfolding q c2 ws2 mx w0 pr by (simp add: marshal_def test_env_def al item_def)
  ultimately show ?thesis using d1 ws2 h1 h2 by simp
qed

subsection \<open>C4: the routing of \<open>menus:<menu>\<close>\<close>

text \<open>
  C4 says that for a provider name \<open>menus:<menu>\<close> the query handed over is
  \<open><menu>:\<close> followed by the original query. The handler splits the name at every
  colon and takes the second part: for the name \<open>menus:a:b\<close> and the query \<open>q\<close>
  the provider \<open>menus\<close> is handed \<open>a:q\<close>, not \<open>a:b:q\<close> (the provider
  \<open>menus\<close> of the concrete environment returns one item whose text is the query
  it was handed).
\<close>

theorem menu_name_cut_at_colon:
  "route ''q'' ''menus:a:b'' = Some (''menus'', ''a:q'') \<and>
   ''menus:a:b'' = ''menus:'' @ ''a:b'' \<and> ''a:q'' \<noteq> ''a:b'' @ '':'' @ ''q'' \<and>
   fanout (test_env None (\<lambda>k. False)) 1 (request [''menus:a:b''] ''q'' 5) [''menus:a:b'']
     = Some [item ''menus'' ''a:q'' 1]"
  by (simp add: route_def HasPrefix_def run_provider_def test_env_def test_registry_def request_def)

text \<open>
  C4, as amended: a provider name that starts with \<open>menus:\<close> is looked up as
  \<open>menus\<close> and handed the part of the name between its first and its second colon
  (all of \<open><menu>\<close> when \<open><menu>\<close> holds no colon), a colon and the original
  query; every other name is looked up as it is and handed the original query. The
  routing never fails, and the merged list is the concatenation of what the routed
  providers return.
\<close>

theorem menus_routing:
  "route query v =
     Some (if HasPrefix v ''menus:'' then (''menus'', menu_of v @ '':'' @ query) else (v, query)) \<and>
   (CHR '':'' \<notin> set m \<longrightarrow>
      route query (''menus:'' @ m) = Some (''menus'', m @ '':'' @ query)) \<and>
   fanout E format req (Providers req) =
     Some (concat (map (\<lambda>v. if HasPrefix v ''menus:''
                             then run_provider E format req ''menus'' (menu_of v @ '':'' @ Query req)
                             else run_provider E format req v (Query req)) (Providers req)))"
proof -
  have "HasPrefix (''menus:'' @ m) ''menus:''"
    by (simp add: HasPrefix_def)
  then have "CHR '':'' \<notin> set m \<longrightarrow>
      route query (''menus:'' @ m) = Some (''menus'', m @ '':'' @ query)"
    using route_eq[of query "''menus:'' @ m"] menu_of_no_colon[of m] by simp
  then show ?thesis
    using route_eq[of query v] fanout_eq[of E format req "Providers req"] by simp
qed

theorem menus_routing_witness:
  "CHR '':'' \<notin> set ''networks'' \<and>
   route ''wifi'' ''menus:networks'' = Some (''menus'', ''networks:wifi'') \<and>
   route ''wifi'' ''files'' = Some (''files'', ''wifi'') \<and>
   fanout (test_env None (\<lambda>k. False)) 1 (request [''menus:networks''] ''wifi'' 5) [''menus:networks'']
     = Some [item ''menus'' ''networks:wifi'' 1]"
proof -
  have a: "CHR '':'' \<notin> set ''networks''" by simp
  have b: "\<not> HasPrefix ''files'' ''menus:''" by (simp add: HasPrefix_def)
  have c: "HasPrefix ''menus:networks'' ''menus:''" by (simp add: HasPrefix_def)
  have d: "menu_of ''menus:networks'' = ''networks''" by (simp add: menu_of_def)
  have e: "run_provider (test_env None (\<lambda>k. False)) 1 (request [''menus:networks''] ''wifi'' 5) ''menus'' ''networks:wifi''
      = [item ''menus'' ''networks:wifi'' 1]"
    by (simp add: run_provider_def test_env_def test_registry_def)
  have f: "Providers (request [''menus:networks''] ''wifi'' 5) = [''menus:networks'']"
    and g: "Query (request [''menus:networks''] ''wifi'' 5) = ''wifi''"
    by (simp_all add: request_def)
  show ?thesis
    using menus_routing[of "''wifi''" "''files''" "''networks''" "test_env None (\<lambda>k. False)" 1
        "request [''menus:networks''] ''wifi'' 5"]
      menus_routing[of "''wifi''" "''menus:networks''" "''networks''" "test_env None (\<lambda>k. False)" 1
        "request [''menus:networks''] ''wifi'' 5"]
      a b c d e f g
    by simp
qed

subsection \<open>C5: the result cap\<close>

text \<open>
  C5 says that for every query whose sorted list is longer than \<open>maxresults\<close> the
  list is cut to its first \<open>maxresults\<close> entries. \<open>maxresults\<close> is an
  \<^verbatim>\<open>int32\<close> the client sends as it is: for \<open>-1\<close> and four merged items the sorted
  list is longer than \<open>maxresults\<close>, and the handler panics in the slice expression
  having written nothing.
\<close>

theorem negative_maxresults_is_not_truncated:
  "sint (Maxresults (request [''files'', ''websearch''] ''x'' (- 1)))
     < int (length (sorted_entries (test_env (Some (request [''files'', ''websearch''] ''x'' (- 1)))
          (\<lambda>k. False)) 1 (request [''files'', ''websearch''] ''x'' (- 1)))) \<and>
   fst (Handle (test_env (Some (request [''files'', ''websearch''] ''x'' (- 1))) (\<lambda>k. False)) 1 7 []
      g0 c0) = Panicked \<and>
   written (snd (snd (Handle (test_env (Some (request [''files'', ''websearch''] ''x'' (- 1)))
      (\<lambda>k. False)) 1 7 [] g0 c0))) = []"
  by (simp add: Handle_def sorted_entries_def merged_def test_defs)

text \<open>
  C5, as amended: for every query with a non-negative \<open>maxresults\<close> the handler
  does not panic, the slice is exactly the first \<open>maxresults\<close> entries of the
  sorted list (all of it when it is shorter), and the emission loop runs over exactly
  that prefix. The \<open>QueryItem\<close> frames written are those of a subsequence of the
  prefix, so there are at most \<open>maxresults\<close> of them; a query that is never found
  cancelled, on a connection that accepts every write, streams exactly the entries of
  the prefix that are not suppressed and that the codec can encode; and every entry of
  the prefix ranks before or ties with every entry that was cut off.
\<close>

theorem result_cap:
  assumes "decode E format data = Some req" and "sort_contract E"
    and "0 \<le> sint (Maxresults req)" and "Handle E format cid data g c = (e, g', c')"
  shows "e \<noteq> Panicked \<and>
         cap (sorted_entries E format req) (Maxresults req) =
           Some (take (nat (sint (Maxresults req))) (sorted_entries E format req)) \<and>
         (\<not> isCncld E 0 \<and> merged E format req \<noteq> [] \<longrightarrow>
            (e, c') =
              (case emit E format (qid g + 1) (Query req)
                      (hideWebsearch g req (take (nat (sint (Maxresults req))) (sorted_entries E format req)))
                      (wsprefix_of g req) 1
                      (take (nat (sint (Maxresults req))) (sorted_entries E format req)) c of
                 (None, c'') \<Rightarrow> (Finished, writeStatus QueryDone c'')
               | (Some x, c'') \<Rightarrow> (x, c''))) \<and>
         (\<exists>its tail.
            written c' = written c @ map (item_frame E format (qid g + 1) (Query req)) its @ tail \<and>
            set tail \<subseteq> {noresults_frame, done_frame} \<and>
            length its \<le> nat (sint (Maxresults req)) \<and>
            subseq its (take (nat (sint (Maxresults req))) (sorted_entries E format req)) \<and>
            ((\<forall>k. \<not> isCncld E k) \<and> \<not> closed c \<and> (\<forall>n. accepts c n) \<longrightarrow>
               its = filter
                 (\<lambda>v. \<not> suppressed
                          (hideWebsearch g req
                             (take (nat (sint (Maxresults req))) (sorted_entries E format req)))
                          (wsprefix_of g req) v \<and>
                      marshal E format \<lparr>Qid = qid g + 1, RQuery = Query req, RItem = v\<rparr> \<noteq> None)
                 (take (nat (sint (Maxresults req))) (sorted_entries E format req)))) \<and>
         (\<forall>a\<in>set (take (nat (sint (Maxresults req))) (sorted_entries E format req)).
            \<forall>b\<in>set (drop (nat (sint (Maxresults req))) (sorted_entries E format req)).
              ranked E a b)"
proof -
  let ?n = "nat (sint (Maxresults req))"
  let ?es = "take ?n (sorted_entries E format req)"
  let ?its = "emitted E g format (qid g + 1) req c"
  have dis: "dispatch E g format (qid g + 1) req (wsprefix_of g req) c = (e, c')"
    using assms(1,4) by (rule Handle_dispatch)
  have cp: "cap (sorted_entries E format req) (Maxresults req) = Some ?es"
    using assms(3) by (rule cap_nonneg)
  have cd: "capped E format req = ?es"
    using assms(3) by (rule capped_nonneg)
  have emp: "sorted_entries E format req = [] \<longleftrightarrow> merged E format req = []"
    using assms(2) by (rule sorted_entries_empty)
  have loop: "\<not> isCncld E 0 \<and> merged E format req \<noteq> [] \<longrightarrow>
            (e, c') =
              (case emit E format (qid g + 1) (Query req) (hideWebsearch g req ?es)
                      (wsprefix_of g req) 1 ?es c of
                 (None, c'') \<Rightarrow> (Finished, writeStatus QueryDone c'')
               | (Some x, c'') \<Rightarrow> (x, c''))"
    using dis emp cp by (auto simp: dispatch_unfold)
  have np: "e \<noteq> Panicked"
  proof (cases "isCncld E 0 \<or> merged E format req = []")
    case True
    then show ?thesis using dis emp by (auto simp: dispatch_unfold split: if_splits)
  next
    case False
    let ?r = "emit E format (qid g + 1) (Query req) (hideWebsearch g req ?es) (wsprefix_of g req) 1 ?es c"
    have "fst ?r = None \<or> fst ?r = Some Cancelled \<or> fst ?r = Some WriteFailed"
      by (rule emit_exit)
    moreover have "(e, c') = (case ?r of (None, c'') \<Rightarrow> (Finished, writeStatus QueryDone c'')
               | (Some x, c'') \<Rightarrow> (x, c''))"
      using loop False by blast
    ultimately show ?thesis by (auto split: prod.splits option.splits)
  qed
  from Handle_emitted[OF assms(1,4)] obtain tail where
    w: "written c' = written c @ map (item_frame E format (qid g + 1) (Query req)) ?its @ tail"
    and t: "set tail \<subseteq> {noresults_frame, done_frame}"
    by blast
  have s: "subseq ?its ?es"
    using emitted_subseq[of E g format "qid g + 1" req c] cd by simp
  then have "length ?its \<le> length ?es"
    by (rule list_emb_length)
  then have l: "length ?its \<le> ?n" by simp
  have f: "(\<forall>k. \<not> isCncld E k) \<and> \<not> closed c \<and> (\<forall>n. accepts c n) \<longrightarrow>
      ?its = filter
                 (\<lambda>v. \<not> suppressed (hideWebsearch g req ?es) (wsprefix_of g req) v \<and>
                      marshal E format \<lparr>Qid = qid g + 1, RQuery = Query req, RItem = v\<rparr> \<noteq> None)
                 ?es"
    using emitted_complete[of E c g format "qid g + 1" req] unfolding cd by blast
  have r: "\<forall>a\<in>set ?es. \<forall>b\<in>set (drop ?n (sorted_entries E format req)). ranked E a b"
    using sorted_split[OF assms(2)] by (simp add: sortEntries_le)
  have ex: "\<exists>its tail.
            written c' = written c @ map (item_frame E format (qid g + 1) (Query req)) its @ tail \<and>
            set tail \<subseteq> {noresults_frame, done_frame} \<and>
            length its \<le> ?n \<and> subseq its ?es \<and>
            ((\<forall>k. \<not> isCncld E k) \<and> \<not> closed c \<and> (\<forall>n. accepts c n) \<longrightarrow>
               its = filter
                 (\<lambda>v. \<not> suppressed (hideWebsearch g req ?es) (wsprefix_of g req) v \<and>
                      marshal E format \<lparr>Qid = qid g + 1, RQuery = Query req, RItem = v\<rparr> \<noteq> None)
                 ?es)"
    using w t l s f by blast
  from np cp loop ex r show ?thesis by (intro conjI)
qed

theorem result_cap_witness:
  "0 \<le> sint (Maxresults (request [''files'', ''websearch''] ''g foo'' 2)) \<and>
   sorted_entries (test_env (Some (request [''files'', ''websearch''] ''g foo'' 2)) (\<lambda>k. False)) 1
       (request [''files'', ''websearch''] ''g foo'' 2) =
     [item ''websearch'' ''Google'' 7, item ''files'' ''alpha'' 5, item ''files'' ''Beta'' 5,
      item ''files'' ''gamma'' 3] \<and>
   fst (Handle (test_env (Some (request [''files'', ''websearch''] ''g foo'' 2)) (\<lambda>k. False)) 1 7 []
      g0 c0) \<noteq> Panicked \<and>
   (\<exists>tail.
      written (snd (snd (Handle (test_env (Some (request [''files'', ''websearch''] ''g foo'' 2))
        (\<lambda>k. False)) 1 7 [] g0 c0))) =
      map (item_frame (test_env (Some (request [''files'', ''websearch''] ''g foo'' 2)) (\<lambda>k. False)) 1 1
        ''g foo'') [item ''websearch'' ''Google'' 7, item ''files'' ''alpha'' 5] @ tail \<and>
      set tail \<subseteq> {noresults_frame, done_frame}) \<and>
   written (snd (snd (Handle (test_env (Some (request [''files'', ''websearch''] ''g foo'' 2))
        (\<lambda>k. False)) 1 7 [] g0 c0))) =
     map (item_frame (test_env (Some (request [''files'', ''websearch''] ''g foo'' 2)) (\<lambda>k. False)) 1 1
        ''g foo'') [item ''websearch'' ''Google'' 7, item ''files'' ''alpha'' 5] @ [done_frame]"
proof -
  let ?r = "request [''files'', ''websearch''] ''g foo'' 2"
  let ?E = "test_env (Some ?r) (\<lambda>k. False)"
  have d: "decode ?E 1 [] = Some ?r"
    by (simp add: decode_def test_env_def)
  have n: "0 \<le> sint (Maxresults ?r)" and n2: "nat (sint (Maxresults ?r)) = 2"
    and qr: "Query ?r = ''g foo''" and pr: "Providers ?r = [''files'', ''websearch'']"
    by (simp_all add: request_def)
  have se: "sorted_entries ?E 1 ?r =
     [item ''websearch'' ''Google'' 7, item ''files'' ''alpha'' 5, item ''files'' ''Beta'' 5,
      item ''files'' ''gamma'' 3]"
    by (simp add: sorted_entries_def merged_def test_defs)
  have q: "qid g0 + 1 = 1" by (simp add: g0_def)
  have w0: "written c0 = []" and o: "\<not> closed c0" and a: "\<forall>n. accepts c0 n"
    by (simp_all add: c0_def)
  have p: "\<forall>k. \<not> isCncld ?E k" by (simp add: test_env_def)
  have ws: "wsprefix_of g0 ?r = ''Google''"
    by (simp add: wsprefix_of_def g0_def request_def HasPrefix_def)
  obtain e g' c' where h: "Handle ?E 1 7 [] g0 c0 = (e, g', c')"
    by (cases "Handle ?E 1 7 [] g0 c0") auto
  note t = result_cap[OF d sort_contract_test_env n h]
  have np: "e \<noteq> Panicked" using t by blast
  have "\<exists>tail. written c' = map (item_frame ?E 1 1 ''g foo'')
        [item ''websearch'' ''Google'' 7, item ''files'' ''alpha'' 5] @ tail \<and>
      set tail \<subseteq> {noresults_frame, done_frame}"
    using t[THEN conjunct2, THEN conjunct2, THEN conjunct2, THEN conjunct1] p o a
    unfolding n2 se q w0 qr ws
    by (simp add: suppressed_def marshal_def test_env_def item_def)
  moreover have "written (snd (snd (Handle ?E 1 7 [] g0 c0))) =
     map (item_frame ?E 1 1 ''g foo'') [item ''websearch'' ''Google'' 7, item ''files'' ''alpha'' 5] @ [done_frame]"
    by (simp add: Handle_def item_frame_def done_frame_def test_defs)
  ultimately show ?thesis using n se np h by simp
qed

subsection \<open>C6: the terminator\<close>




subsection \<open>C7: a payload that fails to decode\<close>

text \<open>
  C7 says that after a decoding failure the handler still sends \<open>QueryDone\<close> and
  leaves the connection open. In the code both decoding branches log and return: the
  handler below is run on a textual payload that does not decode, and the connection
  holds no frame afterwards.
\<close>

theorem decode_failure_sends_no_QueryDone:
  "decode (test_env None (\<lambda>k. False)) 1 [] = None \<and>
   written (snd (snd (Handle (test_env None (\<lambda>k. False)) 1 7 [] g0 c0))) = []"
  by (simp add: Handle_def test_defs)

text \<open>
  C7, as amended: a decoding failure can only happen in format 0 or 1; the handler then
  returns at once, having written no frame at all (no \<open>QueryDone\<close>), with the
  connection as it was (not closed) and the package variables unchanged but for the
  query counter, which has been incremented.
\<close>

theorem decode_failure_writes_nothing:
  assumes "decode E format data = None"
  shows "(format = 0 \<or> format = 1) \<and>
         Handle E format cid data g c = (DecodeFailed, g\<lparr>qid := qid g + 1\<rparr>, c)"
proof -
  have "format = 0 \<or> format = 1"
    using assms by (auto simp: decode_def split: if_splits)
  then show ?thesis
    using assms by (simp add: Handle_failed)
qed

theorem decode_failure_writes_nothing_witness:
  "decode (test_env None (\<lambda>k. False)) 1 [] = None \<and>
   Handle (test_env None (\<lambda>k. False)) 1 7 [] g0 c0 = (DecodeFailed, g0\<lparr>qid := 1\<rparr>, c0) \<and>
   written c0 = [] \<and> \<not> closed c0"
proof -
  have d: "decode (test_env None (\<lambda>k. False)) 1 [] = None"
    by (simp add: decode_def test_env_def)
  have q: "qid g0 + 1 = 1" by (simp add: g0_def)
  show ?thesis
    using decode_failure_writes_nothing[OF d, of 7 g0 c0] d q by (simp add: c0_def)
qed

subsection \<open>C8: the cancel table when a handler exits\<close>




subsection \<open>C9: the query counter\<close>

text \<open>
  C9 says that of two queries handled one after the other the later one is assigned a
  strictly greater \<open>qid\<close>. The counter is an \<^verbatim>\<open>atomic.Uint32\<close>: a query handled
  when the counter stands at \<open>4294967295\<close> is assigned \<open>0\<close>.
\<close>

theorem qid_wraps_around:
  "unat (qid (fst (snd (Handle (test_env (Some (request [''files''] ''x'' 10)) (\<lambda>k. False)) 1 7 [] (g0\<lparr>qid := 4294967294\<rparr>) c0))))
     = 4294967295 \<and>
   unat (qid (fst (snd (Handle (test_env (Some (request [''files''] ''x'' 10)) (\<lambda>k. False)) 1 7 []
      (fst (snd (Handle (test_env (Some (request [''files''] ''x'' 10)) (\<lambda>k. False)) 1 7 [] (g0\<lparr>qid := 4294967294\<rparr>) c0))) c0)))) = 0"
  by (simp add: Handle_qid)

text \<open>
  C9, as amended: every call of the handler adds one to the counter modulo \<open>2^32\<close>
  and takes the new value as the query's \<open>qid\<close>; of two queries handled one after
  the other the later has the strictly greater \<open>qid\<close> unless the earlier one's is
  \<open>4294967295\<close>. Every \<open>QueryItem\<close> frame written for a query is the encoding
  of an envelope whose \<open>Qid\<close> is that value (converted to \<^verbatim>\<open>int32\<close>, the same 32
  bits) and whose query is the request's.
\<close>

theorem qid_increases_until_wrap:
  assumes "Handle E format cid data g c = (e1, g1, c1)"
    and "Handle E' format' cid' data' g1 c' = (e2, g2, c2)"
  shows "qid g1 = qid g + 1 \<and> qid g2 = qid g1 + 1 \<and>
         (unat (qid g1) < 4294967295 \<longrightarrow> unat (qid g1) < unat (qid g2)) \<and>
         (\<forall>req. decode E format data = Some req \<longrightarrow>
            (\<exists>its tail. written c1 = written c @ map (item_frame E format (qid g1) (Query req)) its @ tail \<and>
               set tail \<subseteq> {noresults_frame, done_frame}))"
proof -
  have q1: "qid g1 = qid g + 1"
    using Handle_qid[of E format cid data g c] assms(1) by simp
  have q2: "qid g2 = qid g1 + 1"
    using Handle_qid[of E' format' cid' data' g1 c'] assms(2) by simp
  have lt: "unat (qid g1) < 4294967295 \<longrightarrow> unat (qid g1) < unat (qid g2)"
    unfolding q2 by (simp add: unat_word_ariths)
  have w: "\<forall>req. decode E format data = Some req \<longrightarrow>
            (\<exists>its tail. written c1 = written c @ map (item_frame E format (qid g1) (Query req)) its @ tail \<and>
               set tail \<subseteq> {noresults_frame, done_frame})"
    using Handle_written[of E format "data" _ cid g c] assms(1) unfolding q1 by simp
  from q1 q2 lt w show ?thesis by blast
qed

theorem qid_increases_until_wrap_witness:
  "unat (qid g0) + 1 < 4294967295 \<and>
   qid (fst (snd (Handle (test_env (Some (request [''files''] ''x'' 10)) (\<lambda>k. False)) 1 7 [] g0 c0))) = 1 \<and>
   qid (fst (snd (Handle (test_env (Some (request [''files''] ''y'' 10)) (\<lambda>k. False)) 1 7 []
      (fst (snd (Handle (test_env (Some (request [''files''] ''x'' 10)) (\<lambda>k. False)) 1 7 [] g0 c0)))
      c0))) = 2"
proof -
  let ?E = "test_env (Some (request [''files''] ''x'' 10)) (\<lambda>k. False)"
  let ?E' = "test_env (Some (request [''files''] ''y'' 10)) (\<lambda>k. False)"
  obtain e1 g1 c1 where h1: "Handle ?E 1 7 [] g0 c0 = (e1, g1, c1)"
    by (cases "Handle ?E 1 7 [] g0 c0") auto
  obtain e2 g2 c2 where h2: "Handle ?E' 1 7 [] g1 c0 = (e2, g2, c2)"
    by (cases "Handle ?E' 1 7 [] g1 c0") auto
  have "qid g0 = 0" by (simp add: g0_def)
  then show ?thesis
    using qid_increases_until_wrap[OF h1 h2] h1 h2 by simp
qed

subsection \<open>C10: the result cap and negative \<open>maxresults\<close>\<close>

text \<open>
  C10: the slice \<^verbatim>\<open>entries[:req.Maxresults]\<close> is in bounds whenever \<open>maxresults\<close>
  is not negative, and out of bounds for a negative \<open>maxresults\<close> and a non-empty
  merged list. For a request that decodes, and a sorting function that keeps its
  contract, the handler panics exactly when it is not cancelled at the barrier, the
  merged list is not empty and \<open>maxresults\<close> is negative; for a non-negative
  \<open>maxresults\<close> the cap is the prefix of that length.
\<close>

theorem result_cap_in_bounds_iff_nonnegative:
  assumes "decode E format data = Some req" and "sort_contract E"
  shows "(fst (Handle E format cid data g c) = Panicked \<longleftrightarrow>
            \<not> isCncld E 0 \<and> merged E format req \<noteq> [] \<and> sint (Maxresults req) < 0) \<and>
         (0 \<le> sint (Maxresults req) \<longrightarrow>
            cap (sorted_entries E format req) (Maxresults req) =
              Some (take (nat (sint (Maxresults req))) (sorted_entries E format req)))"
proof -
  let ?d = "dispatch E g format (qid g + 1) req (wsprefix_of g req) c"
  have h: "fst (Handle E format cid data g c) = fst ?d"
    using assms(1) by (simp add: Handle_decoded)
  have emp: "sorted_entries E format req = [] \<longleftrightarrow> merged E format req = []"
    using assms(2) by (rule sorted_entries_empty)
  have "fst ?d = Panicked \<longleftrightarrow>
      \<not> isCncld E 0 \<and> merged E format req \<noteq> [] \<and> sint (Maxresults req) < 0"
  proof (cases "isCncld E 0 \<or> merged E format req = []")
    case True
    then show ?thesis using emp by (auto simp: dispatch_unfold)
  next
    case False
    then have nc: "\<not> isCncld E 0" and ne: "sorted_entries E format req \<noteq> []"
      using emp by auto
    show ?thesis
    proof (cases "sint (Maxresults req) < 0")
      case True
      with nc ne False show ?thesis by (simp add: dispatch_unfold cap_negative)
    next
      case nonneg: False
      let ?es = "take (nat (sint (Maxresults req))) (sorted_entries E format req)"
      let ?r = "emit E format (qid g + 1) (Query req) (hideWebsearch g req ?es) (wsprefix_of g req) 1 ?es c"
      have "fst ?r = None \<or> fst ?r = Some Cancelled \<or> fst ?r = Some WriteFailed"
        by (rule emit_exit)
      then have "fst (case ?r of (None, c') \<Rightarrow> (Finished, writeStatus QueryDone c') | (Some e, c') \<Rightarrow> (e, c'))
          \<noteq> Panicked"
        by (auto split: prod.splits option.splits)
      with nc ne nonneg show ?thesis by (simp add: dispatch_unfold cap_nonneg)
    qed
  qed
  with h show ?thesis by (simp add: cap_nonneg)
qed

theorem result_cap_in_bounds_iff_nonnegative_witness:
  "fst (Handle (test_env (Some (request [''files''] ''x'' (- 1))) (\<lambda>k. False)) 1 7 [] g0 c0) = Panicked \<and>
   sint (Maxresults (request [''files''] ''x'' (- 1))) = - 1 \<and>
   fst (Handle (test_env (Some (request [''files''] ''x'' 2)) (\<lambda>k. False)) 1 7 [] g0 c0) \<noteq> Panicked \<and>
   cap (sorted_entries (test_env (Some (request [''files''] ''x'' 2)) (\<lambda>k. False)) 1 (request [''files''] ''x'' 2)) 2
     = Some [item ''files'' ''alpha'' 5, item ''files'' ''Beta'' 5]"
proof -
  let ?r1 = "request [''files''] ''x'' (- 1)" and ?r2 = "request [''files''] ''x'' 2"
  let ?E1 = "test_env (Some ?r1) (\<lambda>k. False)" and ?E2 = "test_env (Some ?r2) (\<lambda>k. False)"
  have d1: "decode ?E1 1 [] = Some ?r1" and d2: "decode ?E2 1 [] = Some ?r2"
    by (simp_all add: decode_def test_env_def)
  have m1: "merged ?E1 1 ?r1 \<noteq> []"
    by (simp add: merged_def test_defs)
  have s2: "sorted_entries ?E2 1 ?r2 = [item ''files'' ''alpha'' 5, item ''files'' ''Beta'' 5, item ''files'' ''gamma'' 3]"
    by (simp add: sorted_entries_def merged_def test_defs)
  have n1: "sint (Maxresults ?r1) = - 1" and n2: "sint (Maxresults ?r2) = 2"
    by (simp_all add: request_def)
  have p1: "\<not> isCncld ?E1 0" by (simp add: test_env_def)
  show ?thesis
    using result_cap_in_bounds_iff_nonnegative[OF d1 sort_contract_test_env, of 7 g0 c0]
      result_cap_in_bounds_iff_nonnegative[OF d2 sort_contract_test_env, of 7 g0 c0]
      m1 n1 n2 p1 s2
    by (simp add: request_def)
qed

end
